theory Spec2Isabelle
  imports Main "HOL-Library.Char_ord" "HOL-Library.List_Lexorder"
begin

section \<open>Strings\<close>

text \<open>
  JavaScript strings are modelled as \<^typ>\<open>string\<close> restricted to ASCII:
  \<open>toLowerCase\<close> maps \<open>A\<close>..\<open>Z\<close> to \<open>a\<close>..\<open>z\<close> and leaves every other
  character alone, \<open>trim\<close> strips the ASCII white space and line terminators
  (TAB, LF, VT, FF, CR, SPACE) from both ends.
\<close>

definition toLowerCase_char :: "char \<Rightarrow> char" where
  "toLowerCase_char c =
     (case map_of (zip ''ABCDEFGHIJKLMNOPQRSTUVWXYZ'' ''abcdefghijklmnopqrstuvwxyz'') c of
        Some l \<Rightarrow> l
      | None \<Rightarrow> c)"

definition toLowerCase :: "string \<Rightarrow> string" where
  "toLowerCase s = map toLowerCase_char s"

definition isWhiteSpace :: "char \<Rightarrow> bool" where
  "isWhiteSpace c =
     (c \<in> set [CHR 0x09, CHR 0x0A, CHR 0x0B, CHR 0x0C, CHR 0x0D, CHR '' ''])"

definition trim :: "string \<Rightarrow> string" where
  "trim s = rev (dropWhile isWhiteSpace (rev (dropWhile isWhiteSpace s)))"

text \<open>\<open>s.includes(sub)\<close>: \<open>sub\<close> occurs in \<open>s\<close> as a contiguous substring.\<close>

fun startsWith :: "string \<Rightarrow> string \<Rightarrow> bool" where
  "startsWith s [] = True"
| "startsWith [] (c # sub) = False"
| "startsWith (d # s) (c # sub) = (d = c \<and> startsWith s sub)"

fun includes_str :: "string \<Rightarrow> string \<Rightarrow> bool" where
  "includes_str [] sub = (sub = [])"
| "includes_str (d # s) sub = (startsWith (d # s) sub \<or> includes_str s sub)"

section \<open>Data model (lib/db.ts)\<close>

datatype TokenStatus = Active | Expired

datatype InvitationStatus = Pending | Success | Failed

record Team =
  t_id :: string
  t_name :: string
  t_accountId :: string
  t_accessToken :: string
  t_organizationId :: "string option"
  t_email :: "string option"
  t_tokenErrorCount :: nat
  t_tokenStatus :: TokenStatus
  t_memberCount :: nat
  t_lastInviteAt :: "int option"
  t_createdAt :: int
  t_updatedAt :: int

record AccessKey =
  k_code :: string
  k_teamId :: "string option"
  k_isTemp :: bool
  k_isUnlimited :: bool
  k_tempHours :: "int option"
  k_usageCount :: nat
  k_createdAt :: int

record Invitation =
  i_id :: string
  i_teamId :: string
  i_email :: string
  i_keyCode :: "string option"
  i_status :: InvitationStatus
  i_isTemp :: bool
  i_tempExpireAt :: "int option"
  i_isConfirmed :: bool
  i_createdAt :: int

text \<open>The argument of \<open>DB.createInvitation\<close>: an \<open>Invitation\<close> without \<open>id\<close> and
  \<open>createdAt\<close>.\<close>

record InvitationInput =
  n_teamId :: string
  n_email :: string
  n_keyCode :: "string option"
  n_status :: InvitationStatus
  n_isTemp :: bool
  n_tempExpireAt :: "int option"
  n_isConfirmed :: bool

record KickLog =
  l_id :: string
  l_teamId :: string
  l_email :: string
  l_reason :: string
  l_success :: bool
  l_error :: "string option"
  l_createdAt :: int

record AutoKickConfig =
  enabled :: bool
  checkInterval :: int
  startHour :: int
  endHour :: int

section \<open>The remote service\<close>

text \<open>
  One element of the \<open>items\<close> array of \<open>GET /accounts/{id}/users\<close>. The handlers read
  the fields \<open>id\<close>, \<open>email\<close> and \<open>role\<close>; \<open>email\<close> and \<open>role\<close> may be missing.
\<close>

record Member =
  m_id :: string
  m_email :: "string option"
  m_role :: "string option"

text \<open>
  What \<open>fetchTeamMembers\<close> does for one (access token, account id): it throws an
  \<open>Error\<close> with a message (status 401, another status, or a network failure), or returns
  \<open>data.items || []\<close>, which is an array of members or some other truthy JSON value.
\<close>

datatype FetchResult = FetchError string | Items "Member list" | NonArray

section \<open>State\<close>

text \<open>
  The Deno KV store and the remote service. A KV table \<open>[table, key] \<mapsto> record\<close> is
  the list of its records in key order; every writer stores a record under its own
  primary key (\<open>id\<close> or \<open>code\<close>), so lookup is by that field. The index
  \<open>[invitations_by_email, email, teamId] \<mapsto> id\<close> is a map. The remote service answers
  member listings by \<open>r_members\<close> and invites by \<open>r_invite\<close> (\<open>None\<close>: status 200 or
  201, \<open>Some msg\<close>: \<open>inviteToTeam\<close> throws \<open>Error(msg)\<close>); \<open>r_calls\<close> logs the
  member-listing, invite and member-removal requests sent to it, oldest first.
\<close>

datatype RemoteCall =
    ListMembers string string
  | InviteMember string string string
  | RemoveMember string string string

record State =
  teams :: "Team list"
  keys :: "AccessKey list"
  invitations :: "Invitation list"
  invitations_by_email :: "string \<times> string \<Rightarrow> string option"
  config :: "AutoKickConfig option"
  kick_logs :: "KickLog list"
  r_members :: "string \<Rightarrow> string \<Rightarrow> FetchResult"
  r_invite :: "string \<Rightarrow> string \<Rightarrow> string \<Rightarrow> string option"
  r_calls :: "RemoteCall list"

text \<open>
  What one request reads from its environment: the clock (\<open>Date.now()\<close>, in
  milliseconds; one request sees one clock value), the local hour
  (\<open>new Date().getHours()\<close>) and the identifier \<open>crypto.randomUUID()\<close> returns.
\<close>

record Env =
  now :: int
  currentHour :: int
  uuid :: string

section \<open>KV tables\<close>

definition kv_get :: "('v \<Rightarrow> string) \<Rightarrow> string \<Rightarrow> 'v list \<Rightarrow> 'v option" where
  "kv_get key k tbl = find (\<lambda>v. key v = k) tbl"

text \<open>\<open>kv.set\<close> replaces the record stored under the key, or inserts the new record at
  the key's place in key order.\<close>

definition kv_set :: "('v \<Rightarrow> string) \<Rightarrow> 'v \<Rightarrow> 'v list \<Rightarrow> 'v list" where
  "kv_set key v tbl = insort_key key v (filter (\<lambda>x. key x \<noteq> key v) tbl)"

section \<open>DB helpers (lib/db.ts)\<close>

definition getTeam :: "string \<Rightarrow> State \<Rightarrow> Team option" where
  "getTeam id' s = kv_get t_id id' (teams s)"

text \<open>\<open>teams.sort((a, b) => b.createdAt - a.createdAt)\<close>: a stable sort, newest first.\<close>

definition listTeams :: "State \<Rightarrow> Team list" where
  "listTeams s = sort_key (\<lambda>t. - t_createdAt t) (teams s)"

text \<open>\<open>updates\<close> is the spread \<open>...updates\<close> of a partial \<open>Team\<close>; \<open>None\<close> is the
  thrown \<open>Error("Team not found")\<close>.\<close>

definition updateTeam :: "Env \<Rightarrow> string \<Rightarrow> (Team \<Rightarrow> Team) \<Rightarrow> State \<Rightarrow> (Team \<times> State) option" where
  "updateTeam env id' updates s =
     (case getTeam id' s of
        None \<Rightarrow> None
      | Some team \<Rightarrow>
          let updatedTeam = (updates team)\<lparr>t_updatedAt := now env\<rparr>
          in Some (updatedTeam, s\<lparr>teams := kv_set t_id updatedTeam (teams s)\<rparr>))"

definition getAccessKey :: "string \<Rightarrow> State \<Rightarrow> AccessKey option" where
  "getAccessKey code s = kv_get k_code code (keys s)"

definition incrementKeyUsage :: "string \<Rightarrow> State \<Rightarrow> State" where
  "incrementKeyUsage code s =
     (case getAccessKey code s of
        None \<Rightarrow> s
      | Some key \<Rightarrow> s\<lparr>keys := kv_set k_code (key\<lparr>k_usageCount := k_usageCount key + 1\<rparr>) (keys s)\<rparr>)"

definition createInvitation :: "Env \<Rightarrow> InvitationInput \<Rightarrow> State \<Rightarrow> Invitation \<times> State" where
  "createInvitation env invite s =
     (let id' = uuid env;
          normalizedEmail = toLowerCase (trim (n_email invite));
          newInvite = \<lparr>i_id = id', i_teamId = n_teamId invite, i_email = normalizedEmail,
                       i_keyCode = n_keyCode invite, i_status = n_status invite,
                       i_isTemp = n_isTemp invite, i_tempExpireAt = n_tempExpireAt invite,
                       i_isConfirmed = n_isConfirmed invite, i_createdAt = now env\<rparr>
      in (newInvite,
          s\<lparr>invitations := kv_set i_id newInvite (invitations s),
            invitations_by_email :=
              (invitations_by_email s)((normalizedEmail, n_teamId invite) \<mapsto> id')\<rparr>))"

definition getInvitation :: "string \<Rightarrow> State \<Rightarrow> Invitation option" where
  "getInvitation id' s = kv_get i_id id' (invitations s)"

definition listInvitations :: "State \<Rightarrow> Invitation list" where
  "listInvitations s = sort_key (\<lambda>i. - i_createdAt i) (invitations s)"

definition getAutoKickConfig :: "State \<Rightarrow> AutoKickConfig" where
  "getAutoKickConfig s =
     (case config s of
        Some c \<Rightarrow> c
      | None \<Rightarrow> \<lparr>enabled = False, checkInterval = 300, startHour = 0, endHour = 23\<rparr>)"

definition addKickLog :: "Env \<Rightarrow> string \<Rightarrow> string \<Rightarrow> string \<Rightarrow> bool \<Rightarrow> string option \<Rightarrow> State \<Rightarrow> State" where
  "addKickLog env teamId email reason ok err s =
     s\<lparr>kick_logs := kv_set l_id
        \<lparr>l_id = uuid env, l_teamId = teamId, l_email = email, l_reason = reason,
         l_success = ok, l_error = err, l_createdAt = now env\<rparr> (kick_logs s)\<rparr>"

section \<open>Remote calls (main.ts)\<close>

definition fetchTeamMembers :: "State \<Rightarrow> string \<Rightarrow> string \<Rightarrow> FetchResult \<times> State" where
  "fetchTeamMembers s accessToken accountId =
     (r_members s accessToken accountId,
      s\<lparr>r_calls := r_calls s @ [ListMembers accessToken accountId]\<rparr>)"

text \<open>\<open>kickMember\<close> sends \<open>DELETE /accounts/{accountId}/users/{userId}\<close>; it and
  \<open>DB.addKickLog\<close> are the only writers of \<open>RemoveMember\<close> calls and of
  \<open>kick_logs\<close>.\<close>

definition kickMember :: "string \<Rightarrow> string \<Rightarrow> string \<Rightarrow> State \<Rightarrow> State" where
  "kickMember accessToken accountId userId s =
     s\<lparr>r_calls := r_calls s @ [RemoveMember accessToken accountId userId]\<rparr>"

section \<open>POST /api/join (main.ts)\<close>

datatype Response =
    MissingFields
  | InvalidKey
  | KeyAlreadyUsed
  | AlreadyMember string string
  | NoAvailableTeams
  | InvitationSent
  | InviteFailed string
  | InternalError string

text \<open>
  \<open>AlreadyMember team_name email\<close> is the success body of the already-a-member path,
  \<open>InviteFailed msg\<close> the body \<open>Invite failed: msg\<close> with status 500, and
  \<open>InternalError msg\<close> the answer of the error middleware to an exception the handler
  does not catch.
\<close>

text \<open>\<open>members.filter((m) => m?.role !== "account-owner")\<close>, or \<open>[]\<close> when \<open>members\<close> is
  not an array.\<close>

definition nonOwnerMembers :: "FetchResult \<Rightarrow> Member list" where
  "nonOwnerMembers members =
     (case members of
        Items ms \<Rightarrow> filter (\<lambda>m. m_role m \<noteq> Some ''account-owner'') ms
      | _ \<Rightarrow> [])"

text \<open>\<open>.map((m) => String(m?.email || "").toLowerCase()).filter(Boolean)\<close>\<close>

definition memberEmails :: "Member list \<Rightarrow> string list" where
  "memberEmails ms =
     filter (\<lambda>e. e \<noteq> [])
       (map (\<lambda>m. toLowerCase (case m_email m of None \<Rightarrow> [] | Some e \<Rightarrow> e)) ms)"

text \<open>\<open>key.isTemp ? Date.now() + (key.tempHours || 24) * 3600000 : undefined\<close>; \<open>||\<close>
  takes the right operand when \<open>tempHours\<close> is \<open>undefined\<close> or \<open>0\<close>.\<close>

definition tempExpireAt :: "Env \<Rightarrow> AccessKey \<Rightarrow> int option" where
  "tempExpireAt env key =
     (if k_isTemp key
      then Some (now env +
             (case k_tempHours key of None \<Rightarrow> 24 | Some h \<Rightarrow> if h = 0 then 24 else h) * 3600000)
      else None)"

definition joinInvitation :: "Env \<Rightarrow> AccessKey \<Rightarrow> string \<Rightarrow> string \<Rightarrow> string \<Rightarrow> InvitationInput" where
  "joinInvitation env key key_code email teamId =
     \<lparr>n_teamId = teamId, n_email = email, n_keyCode = Some key_code, n_status = Success,
      n_isTemp = k_isTemp key, n_tempExpireAt = tempExpireAt env key, n_isConfirmed = False\<rparr>"

definition markExpired :: "Env \<Rightarrow> Team \<Rightarrow> State \<Rightarrow> (Team \<times> State) option" where
  "markExpired env team s = updateTeam env (t_id team) (\<lambda>t. t\<lparr>t_tokenStatus := Expired\<rparr>) s"

text \<open>
  One turn of the loop \<open>for (const team of teams)\<close>: \<open>Continue\<close> goes on to the next
  team with the given \<open>selectedTeam\<close>, \<open>Return\<close> is the \<open>return\<close> of the
  already-a-member path, \<open>Throw\<close> an error that leaves the handler.
\<close>

datatype StepOutcome = Continue "Team option" | Return Response | Throw string

text \<open>The \<open>catch (err)\<close> of the loop body: \<open>DB.updateTeam(team.id, { tokenStatus:
  "expired" })\<close>, whose own \<open>Team not found\<close> error nothing catches.\<close>

definition scanCatch :: "Env \<Rightarrow> Team \<Rightarrow> Team option \<Rightarrow> State \<Rightarrow> StepOutcome \<times> State" where
  "scanCatch env team selectedTeam s =
     (case markExpired env team s of
        None \<Rightarrow> (Throw ''Team not found'', s)
      | Some (expired, s') \<Rightarrow> (Continue selectedTeam, s'))"

definition scanTeam :: "Env \<Rightarrow> AccessKey \<Rightarrow> string \<Rightarrow> string \<Rightarrow> string \<Rightarrow> Team \<Rightarrow> Team option \<Rightarrow> State
    \<Rightarrow> StepOutcome \<times> State" where
  "scanTeam env key key_code email normalizedEmail team selectedTeam s =
     (if t_tokenStatus team = Expired then (Continue selectedTeam, s)
      else
        (case fetchTeamMembers s (t_accessToken team) (t_accountId team) of
           (FetchError msg, s0) \<Rightarrow> scanCatch env team selectedTeam s0
         | (members, s0) \<Rightarrow>
             (let memberCount = length (nonOwnerMembers members)
              in case updateTeam env (t_id team)
                        (\<lambda>t. t\<lparr>t_memberCount := memberCount, t_tokenStatus := Active\<rparr>) s0 of
                   None \<Rightarrow> scanCatch env team selectedTeam s0
                 | Some (refreshed, s1) \<Rightarrow>
                     if normalizedEmail \<in> set (memberEmails (nonOwnerMembers members))
                     then
                       (let (invitation, s2) = createInvitation env
                              (joinInvitation env key key_code email (t_id refreshed)) s1;
                            s3 = incrementKeyUsage key_code s2
                        in (Return (AlreadyMember (t_name refreshed) email), s3))
                     else if memberCount < 4 \<and> selectedTeam = None
                     then (Continue (Some refreshed), s1)
                     else (Continue selectedTeam, s1))))"

text \<open>The loop over the teams still to visit. \<open>Finished\<close> is the end of the loop with
  the final \<open>selectedTeam\<close>.\<close>

datatype ScanOutcome = Returned Response | Finished "Team option" | Threw string

fun scan :: "Env \<Rightarrow> AccessKey \<Rightarrow> string \<Rightarrow> string \<Rightarrow> string \<Rightarrow> Team list \<Rightarrow> Team option \<Rightarrow> State
    \<Rightarrow> ScanOutcome \<times> State" where
  "scan env key key_code email normalizedEmail [] selectedTeam s = (Finished selectedTeam, s)"
| "scan env key key_code email normalizedEmail (team # rest) selectedTeam s =
     (case scanTeam env key key_code email normalizedEmail team selectedTeam s of
        (Continue selectedTeam', s') \<Rightarrow>
          scan env key key_code email normalizedEmail rest selectedTeam' s'
      | (Return response, s') \<Rightarrow> (Returned response, s')
      | (Throw msg, s') \<Rightarrow> (Threw msg, s'))"

text \<open>The \<open>catch (e)\<close> of the invite step, for an error with message \<open>msg\<close>.\<close>

definition inviteCatch :: "Env \<Rightarrow> Team \<Rightarrow> string \<Rightarrow> State \<Rightarrow> Response \<times> State" where
  "inviteCatch env selectedTeam msg s =
     (if includes_str msg ''401'' \<or> includes_str msg ''expired''
      then (case markExpired env selectedTeam s of
              None \<Rightarrow> (InternalError ''Team not found'', s)
            | Some (expired, s') \<Rightarrow> (InviteFailed msg, s'))
      else (InviteFailed msg, s))"

text \<open>Steps 4 and 5 of the handler: \<open>inviteToTeam\<close> on the selected team, then the
  updates of the store.\<close>

definition invite :: "Env \<Rightarrow> AccessKey \<Rightarrow> string \<Rightarrow> string \<Rightarrow> Team \<Rightarrow> State \<Rightarrow> Response \<times> State" where
  "invite env key key_code email selectedTeam s =
     (let s0 = s\<lparr>r_calls := r_calls s @
                   [InviteMember (t_accessToken selectedTeam) (t_accountId selectedTeam) email]\<rparr>
      in case r_invite s (t_accessToken selectedTeam) (t_accountId selectedTeam) email of
           Some msg \<Rightarrow> inviteCatch env selectedTeam msg s0
         | None \<Rightarrow>
             (let (invitation, s1) = createInvitation env
                                (joinInvitation env key key_code email (t_id selectedTeam)) s0;
                  s2 = incrementKeyUsage key_code s1
              in case updateTeam env (t_id selectedTeam)
                        (\<lambda>t. t\<lparr>t_memberCount := t_memberCount selectedTeam + 1,
                               t_lastInviteAt := Some (now env)\<rparr>) s2 of
                   None \<Rightarrow> inviteCatch env selectedTeam ''Team not found'' s2
                 | Some (updated, s3) \<Rightarrow> (InvitationSent, s3)))"

definition join :: "Env \<Rightarrow> string \<Rightarrow> string \<Rightarrow> State \<Rightarrow> Response \<times> State" where
  "join env key_code email s =
     (if email = [] \<or> key_code = [] then (MissingFields, s)
      else
        (case getAccessKey key_code s of
           None \<Rightarrow> (InvalidKey, s)
         | Some key \<Rightarrow>
             if \<not> k_isUnlimited key \<and> \<not> k_isTemp key \<and> k_usageCount key > 0
             then (KeyAlreadyUsed, s)
             else
               (case scan env key key_code email (toLowerCase email) (listTeams s) None s of
                  (Returned response, s') \<Rightarrow> (response, s')
                | (Threw msg, s') \<Rightarrow> (InternalError msg, s')
                | (Finished None, s') \<Rightarrow> (NoAvailableTeams, s')
                | (Finished (Some selectedTeam), s') \<Rightarrow>
                    invite env key key_code email selectedTeam s')))"

section \<open>The cron job "Auto Kick Service" (main.ts)\<close>

text \<open>The condition of the expiry pass:
  \<open>inv.isTemp && !inv.isConfirmed && inv.tempExpireAt && Date.now() > inv.tempExpireAt
  && inv.status === 'success'\<close>.\<close>

definition expiryDue :: "Env \<Rightarrow> Invitation \<Rightarrow> bool" where
  "expiryDue env invitation =
     (i_isTemp invitation \<and> \<not> i_isConfirmed invitation \<and>
      (case i_tempExpireAt invitation of None \<Rightarrow> False | Some e \<Rightarrow> e \<noteq> 0 \<and> now env > e) \<and>
      i_status invitation = Success)"

text \<open>
  The body of \<open>for (const inv of invites)\<close>. Where the member is found the source holds
  only the comments \<open>DELETE /users/{id}\<close>, \<open>Implementation omitted for brevity\<close> and
  \<open>Log kick\<close>: no statement, so no branch does more than the member listing. On a value that
  is no array \<open>members.find\<close> throws, and the \<open>catch\<close> only prints.
\<close>

definition expiryStep :: "Env \<Rightarrow> Invitation \<Rightarrow> State \<Rightarrow> State" where
  "expiryStep env invitation s =
     (if expiryDue env invitation
      then (case getTeam (i_teamId invitation) s of
              None \<Rightarrow> s
            | Some team \<Rightarrow>
                (case fetchTeamMembers s (t_accessToken team) (t_accountId team) of
                   (FetchError msg, s0) \<Rightarrow> s0
                 | (NonArray, s0) \<Rightarrow> s0
                 | (Items members, s0) \<Rightarrow>
                     (case find (\<lambda>m. m_email m = Some (i_email invitation)) members of
                        Some member \<Rightarrow> s0
                      | None \<Rightarrow> s0)))
      else s)"

fun expiryPass :: "Env \<Rightarrow> Invitation list \<Rightarrow> State \<Rightarrow> State" where
  "expiryPass env [] s = s"
| "expiryPass env (invitation # rest) s = expiryPass env rest (expiryStep env invitation s)"

text \<open>The whole job. After the expiry pass the source holds the comment
  \<open>2. Full Sync (Check illegal members)\<close> and no statement.\<close>

definition autoKickTick :: "Env \<Rightarrow> State \<Rightarrow> State" where
  "autoKickTick env s =
     (let config = getAutoKickConfig s
      in if \<not> enabled config then s
         else if currentHour env < startHour config \<or> currentHour env > endHour config then s
         else expiryPass env (listInvitations s) s)"

section \<open>Notions used in the statements\<close>

text \<open>What the remote service answers to the member listing of a team.\<close>

definition liveMembers :: "State \<Rightarrow> Team \<Rightarrow> FetchResult" where
  "liveMembers s t = r_members s (t_accessToken t) (t_accountId t)"

text \<open>A team the scan of \<open>join\<close> looks at: its token is not marked expired and the
  member listing does not fail.\<close>

definition scanned :: "State \<Rightarrow> Team \<Rightarrow> bool" where
  "scanned s t =
     (t_tokenStatus t \<noteq> Expired \<and>
      (case liveMembers s t of FetchError msg \<Rightarrow> False | Items ms \<Rightarrow> True | NonArray \<Rightarrow> True))"

definition liveRoster :: "State \<Rightarrow> Team \<Rightarrow> Member list" where
  "liveRoster s t = nonOwnerMembers (liveMembers s t)"

definition isMemberOf :: "State \<Rightarrow> string \<Rightarrow> Team \<Rightarrow> bool" where
  "isMemberOf s e t = (scanned s t \<and> e \<in> set (memberEmails (liveRoster s t)))"

definition hasCapacity :: "State \<Rightarrow> Team \<Rightarrow> bool" where
  "hasCapacity s t = (scanned s t \<and> length (liveRoster s t) < 4)"

text \<open>The record \<open>refreshed\<close> that \<open>DB.updateTeam\<close> returns for a scanned team.\<close>

definition refreshedTeam :: "Env \<Rightarrow> State \<Rightarrow> Team \<Rightarrow> Team" where
  "refreshedTeam env s t =
     t\<lparr>t_memberCount := length (liveRoster s t), t_tokenStatus := Active, t_updatedAt := now env\<rparr>"

definition isSuccess :: "Response \<Rightarrow> bool" where
  "isSuccess r = (case r of AlreadyMember n e \<Rightarrow> True | InvitationSent \<Rightarrow> True | _ \<Rightarrow> False)"

text \<open>The ledger invariant: every stored invitation has an email that normalisation
  leaves alone, and the index has an entry under its (email, team).\<close>

definition ledgerInv :: "State \<Rightarrow> bool" where
  "ledgerInv s =
     list_all (\<lambda>i. toLowerCase (trim (i_email i)) = i_email i \<and>
                    invitations_by_email s (i_email i, i_teamId i) \<noteq> None)
       (invitations s)"

definition isListCall :: "RemoteCall \<Rightarrow> bool" where
  "isListCall c = (case c of ListMembers tok acc \<Rightarrow> True | _ \<Rightarrow> False)"

definition isInviteCall :: "RemoteCall \<Rightarrow> bool" where
  "isInviteCall c = (case c of InviteMember tok acc email \<Rightarrow> True | _ \<Rightarrow> False)"

definition isRemoveCall :: "RemoteCall \<Rightarrow> bool" where
  "isRemoveCall c = (case c of RemoveMember tok acc userId \<Rightarrow> True | _ \<Rightarrow> False)"

text \<open>The remote invites sent so far.\<close>

definition invitesSent :: "State \<Rightarrow> RemoteCall list" where
  "invitesSent s = filter isInviteCall (r_calls s)"

text \<open>The member removals requested so far.\<close>

definition removalsSent :: "State \<Rightarrow> RemoteCall list" where
  "removalsSent s = filter isRemoveCall (r_calls s)"

text \<open>Two states that differ at most in the team table and in member listings
  requested.\<close>

definition sameButTeams :: "State \<Rightarrow> State \<Rightarrow> bool" where
  "sameButTeams s s' =
     (keys s' = keys s \<and> invitations s' = invitations s \<and>
      invitations_by_email s' = invitations_by_email s \<and> config s' = config s \<and>
      kick_logs s' = kick_logs s \<and> r_members s' = r_members s \<and> r_invite s' = r_invite s \<and>
      (\<exists>cs. r_calls s' = r_calls s @ cs \<and> list_all isListCall cs))"

text \<open>The member listing requested for a team.\<close>

definition listCall :: "Team \<Rightarrow> RemoteCall" where
  "listCall t = ListMembers (t_accessToken t) (t_accountId t)"

text \<open>
  What the loop does on teams whose stored records are the ones in hand: it returns at
  the first team that has the email in its roster, and otherwise ends with the first
  team under capacity (unless a team was selected before), having requested the member
  listing of every team that is not marked expired.
\<close>

definition scanResult :: "Env \<Rightarrow> AccessKey \<Rightarrow> string \<Rightarrow> string \<Rightarrow> string \<Rightarrow> Team list \<Rightarrow> Team option
    \<Rightarrow> State \<Rightarrow> State \<Rightarrow> bool" where
  "scanResult env key kc email ne ts sel s s1 =
     (case find (isMemberOf s ne) ts of
        Some t \<Rightarrow>
          scan env key kc email ne ts sel s =
            (Returned (AlreadyMember (t_name t) email),
             incrementKeyUsage kc (snd (createInvitation env
                (joinInvitation env key kc email (t_id t)) s1)))
      | None \<Rightarrow>
          scan env key kc email ne ts sel s =
            (Finished (case sel of
                         Some c \<Rightarrow> Some c
                       | None \<Rightarrow> map_option (refreshedTeam env s) (find (hasCapacity s) ts)),
             s1) \<and>
          r_calls s1 =
            r_calls s @ map listCall (filter (\<lambda>t. t_tokenStatus t \<noteq> Expired) ts))"

text \<open>The state after the already-a-member path or a successful invite: an invitation
  created and the key's usage incremented, on a state that differs from the first at
  most in the team table and the listing log.\<close>

definition joined :: "Env \<Rightarrow> AccessKey \<Rightarrow> string \<Rightarrow> string \<Rightarrow> State \<Rightarrow> State \<Rightarrow> bool" where
  "joined env key kc email s s' =
     (\<exists>tid s1. sameButTeams s s1 \<and>
        s' = incrementKeyUsage kc (snd (createInvitation env
               (joinInvitation env key kc email tid) s1)))"

text \<open>Two states with the same keys, invitations and index.\<close>

definition sameStore :: "State \<Rightarrow> State \<Rightarrow> bool" where
  "sameStore s s' =
     (keys s' = keys s \<and> invitations s' = invitations s \<and>
      invitations_by_email s' = invitations_by_email s)"

text \<open>The invitation \<open>join\<close> records for a team.\<close>

definition joinRecord :: "Env \<Rightarrow> AccessKey \<Rightarrow> string \<Rightarrow> string \<Rightarrow> string \<Rightarrow> Invitation" where
  "joinRecord env key key_code email teamId =
     \<lparr>i_id = uuid env, i_teamId = teamId, i_email = toLowerCase (trim email),
      i_keyCode = Some key_code, i_status = Success, i_isTemp = k_isTemp key,
      i_tempExpireAt = tempExpireAt env key, i_isConfirmed = False, i_createdAt = now env\<rparr>"

text \<open>The store after one use of the key: the invitation for the team, its index entry
  and the incremented usage count.\<close>

definition usedStore :: "Env \<Rightarrow> AccessKey \<Rightarrow> string \<Rightarrow> string \<Rightarrow> string \<Rightarrow> State \<Rightarrow> State \<Rightarrow> bool" where
  "usedStore env key key_code email teamId s s' =
     (invitations s' = kv_set i_id (joinRecord env key key_code email teamId) (invitations s) \<and>
      invitations_by_email s' =
        (invitations_by_email s)((toLowerCase (trim email), teamId) \<mapsto> uuid env) \<and>
      keys s' = kv_set k_code (key\<lparr>k_usageCount := k_usageCount key + 1\<rparr>) (keys s))"

text \<open>A key the single-use rule lets through: unlimited, temp, or not used yet.\<close>

definition usable :: "AccessKey \<Rightarrow> bool" where
  "usable key = (k_isUnlimited key \<or> k_isTemp key \<or> k_usageCount key = 0)"

text \<open>
  The notions of the claim about the newest team, in the spec's words and apart from
  the handler's own helpers: the live non-owner members are the members the remote
  listing returns without the account-owner role; a team is under capacity when it is
  not marked expired and its listing shows fewer than 4 of them; an email holds a seat
  in a team that is not marked expired when one of them has that email, lower-cased.
\<close>

definition liveNonOwners :: "State \<Rightarrow> Team \<Rightarrow> Member list" where
  "liveNonOwners s t =
     (case liveMembers s t of
        Items ms \<Rightarrow> [m \<leftarrow> ms. m_role m \<noteq> Some ''account-owner'']
      | NonArray \<Rightarrow> []
      | FetchError msg \<Rightarrow> [])"

definition underCapacity :: "State \<Rightarrow> Team \<Rightarrow> bool" where
  "underCapacity s t =
     (t_tokenStatus t \<noteq> Expired \<and>
      (case liveMembers s t of
         FetchError msg \<Rightarrow> False
       | Items ms \<Rightarrow> length (liveNonOwners s t) < 4
       | NonArray \<Rightarrow> length (liveNonOwners s t) < 4))"

definition holdsSeat :: "State \<Rightarrow> string \<Rightarrow> Team \<Rightarrow> bool" where
  "holdsSeat s e t =
     (t_tokenStatus t \<noteq> Expired \<and>
      list_ex (\<lambda>m. case m_email m of None \<Rightarrow> False | Some a \<Rightarrow> a \<noteq> [] \<and> toLowerCase a = e)
        (liveNonOwners s t))"

section \<open>Example states\<close>

definition mkTeam :: "string \<Rightarrow> string \<Rightarrow> string \<Rightarrow> string \<Rightarrow> TokenStatus \<Rightarrow> int \<Rightarrow> Team" where
  "mkTeam i n acc tok st created =
     \<lparr>t_id = i, t_name = n, t_accountId = acc, t_accessToken = tok, t_organizationId = None,
      t_email = None, t_tokenErrorCount = 0, t_tokenStatus = st, t_memberCount = 0,
      t_lastInviteAt = None, t_createdAt = created, t_updatedAt = created\<rparr>"

definition mkKey :: "string \<Rightarrow> bool \<Rightarrow> bool \<Rightarrow> int option \<Rightarrow> nat \<Rightarrow> AccessKey" where
  "mkKey c tmp unl hrs used =
     \<lparr>k_code = c, k_teamId = None, k_isTemp = tmp, k_isUnlimited = unl, k_tempHours = hrs,
      k_usageCount = used, k_createdAt = 0\<rparr>"

definition mkMember :: "string \<Rightarrow> string \<Rightarrow> string \<Rightarrow> Member" where
  "mkMember i e r = \<lparr>m_id = i, m_email = Some e, m_role = Some r\<rparr>"

text \<open>Team A: the owner and three members. Team B: five members. Team C: one
  member.\<close>

definition rosterA :: "Member list" where
  "rosterA = [mkMember ''u0'' ''owner@x.com'' ''account-owner'',
              mkMember ''u1'' ''a1@x.com'' ''standard-user'',
              mkMember ''u2'' ''a2@x.com'' ''standard-user'',
              mkMember ''u3'' ''a3@x.com'' ''standard-user'']"

definition rosterB :: "Member list" where
  "rosterB = [mkMember ''v1'' ''b1@x.com'' ''standard-user'',
              mkMember ''v2'' ''b2@x.com'' ''standard-user'',
              mkMember ''v3'' ''b3@x.com'' ''standard-user'',
              mkMember ''v4'' ''b4@x.com'' ''standard-user'',
              mkMember ''v5'' ''b5@x.com'' ''standard-user'']"

definition rosterC :: "Member list" where
  "rosterC = [mkMember ''w1'' ''c1@x.com'' ''standard-user'']"

definition remote0 :: "string \<Rightarrow> string \<Rightarrow> FetchResult" where
  "remote0 tok acc =
     (if acc = ''accA'' then Items rosterA
      else if acc = ''accB'' then Items rosterB
      else if acc = ''accC'' then Items rosterC
      else FetchError ''API Error: 404'')"

text \<open>Team A is the oldest team, team C the newest.\<close>

definition teamA :: Team where
  "teamA = mkTeam ''tA'' ''Team A'' ''accA'' ''tokA'' Active 100"

definition teamB :: Team where
  "teamB = mkTeam ''tB'' ''Team B'' ''accB'' ''tokB'' Active 200"

definition teamC :: Team where
  "teamC = mkTeam ''tC'' ''Team C'' ''accC'' ''tokC'' Active 300"

text \<open>The store with teams A and B. The keys: a temp key whose \<open>tempHours\<close> is 0, a
  temp key of 24 hours, a fresh single-use key, a used single-use key.\<close>

definition st0 :: State where
  "st0 = \<lparr>teams = [teamA, teamB],
          keys = [mkKey ''temp0'' True False (Some 0) 0,
                  mkKey ''temp24'' True False (Some 24) 0,
                  mkKey ''tickA'' False False None 0,
                  mkKey ''used1'' False False None 1],
          invitations = [],
          invitations_by_email = Map.empty,
          config = None,
          kick_logs = [],
          r_members = remote0,
          r_invite = (\<lambda>tok acc email. None),
          r_calls = []\<rparr>"

text \<open>The store with teams A and C, and the store with team B alone.\<close>

definition st1 :: State where
  "st1 = st0\<lparr>teams := [teamA, teamC]\<rparr>"

definition stFull :: State where
  "stFull = st0\<lparr>teams := [teamB]\<rparr>"

text \<open>Team C with its token marked expired, and the store with team A and that
  team.\<close>

definition teamCx :: Team where
  "teamCx = mkTeam ''tC'' ''Team C'' ''accC'' ''tokC'' Expired 300"

definition stSkip :: State where
  "stSkip = st0\<lparr>teams := [teamA, teamCx]\<rparr>"

definition env0 :: Env where
  "env0 = \<lparr>now = 1000, currentHour = 12, uuid = ''id1''\<rparr>"

definition env1 :: Env where
  "env1 = \<lparr>now = 2000, currentHour = 12, uuid = ''id2''\<rparr>"

text \<open>The reconciler switched on for every hour; a temp invitation for a member of
  team A that expired at 500, before the clock of \<open>env0\<close>; the store holding it, and the
  store with no invitation at all.\<close>

definition configOn :: AutoKickConfig where
  "configOn = \<lparr>enabled = True, checkInterval = 300, startHour = 0, endHour = 23\<rparr>"

definition invExpired :: Invitation where
  "invExpired = \<lparr>i_id = ''i1'', i_teamId = ''tA'', i_email = ''a1@x.com'',
                  i_keyCode = Some ''temp24'', i_status = Success, i_isTemp = True,
                  i_tempExpireAt = Some 500, i_isConfirmed = False, i_createdAt = 10\<rparr>"

definition stExpired :: State where
  "stExpired = st0\<lparr>config := Some configOn, invitations := [invExpired],
                    invitations_by_email := [(''a1@x.com'', ''tA'') \<mapsto> ''i1'']\<rparr>"

definition stUnauthorized :: State where
  "stUnauthorized = st0\<lparr>config := Some configOn\<rparr>"

definition input0 :: InvitationInput where
  "input0 = \<lparr>n_teamId = ''tA'', n_email = ''  Bob@X.com '', n_keyCode = Some ''tickA'',
             n_status = Success, n_isTemp = False, n_tempExpireAt = None,
             n_isConfirmed = False\<rparr>"

section \<open>Strings: normalisation is idempotent\<close>

lemma isWhiteSpace_toLowerCase_char: "isWhiteSpace (toLowerCase_char c) = isWhiteSpace c"
  by (simp add: toLowerCase_char_def isWhiteSpace_def)

lemma toLowerCase_char_idem: "toLowerCase_char (toLowerCase_char c) = toLowerCase_char c"
  by (simp add: toLowerCase_char_def)

lemma toLowerCase_idem: "toLowerCase (toLowerCase s) = toLowerCase s"
  by (simp add: toLowerCase_def toLowerCase_char_idem)

lemma dropWhile_toLowerCase:
  "dropWhile isWhiteSpace (map toLowerCase_char s) =
   map toLowerCase_char (dropWhile isWhiteSpace s)"
  by (induction s) (simp_all add: isWhiteSpace_toLowerCase_char)

lemma trim_toLowerCase: "trim (toLowerCase s) = toLowerCase (trim s)"
  by (simp add: trim_def toLowerCase_def dropWhile_toLowerCase rev_map)

lemma trimEnd_Cons:
  "rev (dropWhile P (rev (x # xs))) =
     (if (\<forall>y\<in>set xs. P y) \<and> P x then [] else x # rev (dropWhile P (rev xs)))"
  by (simp add: dropWhile_append)

lemma dropWhile_trimEnd:
  "dropWhile P (rev (dropWhile P (rev xs))) = rev (dropWhile P (rev (dropWhile P xs)))"
proof (induction xs)
  case Nil
  then show ?case by simp
next
  case (Cons x xs)
  show ?case
  proof (cases "P x")
    case True
    then show ?thesis using Cons
      by (simp only: trimEnd_Cons dropWhile.simps)
         (auto simp: dropWhile_eq_Nil_conv dest: set_dropWhileD)
  next
    case False
    then show ?thesis
      by (simp add: trimEnd_Cons del: rev.simps)
  qed
qed

lemma trim_idem: "trim (trim s) = trim s"
  by (simp add: trim_def dropWhile_trimEnd)

lemma normalize_idem: "toLowerCase (trim (toLowerCase (trim s))) = toLowerCase (trim s)"
  by (simp add: trim_toLowerCase trim_idem toLowerCase_idem)

section \<open>KV tables: lookup after a write\<close>

lemma find_insort_key_other:
  "key v \<noteq> k \<Longrightarrow> find (\<lambda>x. key x = k) (insort_key key v xs) = find (\<lambda>x. key x = k) xs"
  by (induction xs) auto

lemma find_insort_key_same:
  "\<forall>x\<in>set xs. key x \<noteq> key v \<Longrightarrow> find (\<lambda>x. key x = key v) (insort_key key v xs) = Some v"
  by (induction xs) auto

lemma find_filter_other:
  "k \<noteq> k' \<Longrightarrow> find (\<lambda>x. key x = k) (filter (\<lambda>x. key x \<noteq> k') xs) = find (\<lambda>x. key x = k) xs"
  by (induction xs) auto

lemma kv_get_kv_set:
  "kv_get key k (kv_set key v tbl) = (if k = key v then Some v else kv_get key k tbl)"
  by (auto simp: kv_get_def kv_set_def find_insort_key_other find_insort_key_same
        find_filter_other)

lemma set_kv_set: "set (kv_set key v tbl) = insert v {x \<in> set tbl. key x \<noteq> key v}"
  by (auto simp: kv_set_def set_insort_key)

lemma kv_get_Some: "kv_get key k tbl = Some v \<Longrightarrow> v \<in> set tbl \<and> key v = k"
  by (induction tbl) (auto simp: kv_get_def split: if_splits)

lemma kv_get_None: "(kv_get key k tbl = None) = (k \<notin> key ` set tbl)"
  by (induction tbl) (auto simp: kv_get_def)

lemma kv_get_distinct:
  "distinct (map key tbl) \<Longrightarrow> v \<in> set tbl \<Longrightarrow> kv_get key (key v) tbl = Some v"
  by (induction tbl) (auto simp: kv_get_def)

lemma distinct_map_insort_key:
  "distinct (map f (insort_key f v xs)) = (f v \<notin> f ` set xs \<and> distinct (map f xs))"
  by (induction xs) (auto simp: set_insort_key)

lemma distinct_kv_set: "distinct (map key tbl) \<Longrightarrow> distinct (map key (kv_set key v tbl))"
  by (auto simp: kv_set_def distinct_map_insort_key distinct_map_filter)

section \<open>The invitation ledger\<close>

lemma ledgerInv_createInvitation:
  assumes "ledgerInv s"
  shows "ledgerInv (snd (createInvitation env inp s))"
  using assms
  by (auto simp: ledgerInv_def createInvitation_def Let_def list_all_iff set_kv_set
        normalize_idem)

text \<open>
  C9. \<open>DB.createInvitation\<close> stores the invitation with the trimmed, lower-cased form of
  the supplied email, whatever the caller passes, under the new id, and writes the index
  entry keyed by (normalised email, team id) that maps to the new id. A ledger in which
  every record has a normalised email and an index entry under its (email, team) is such
  a ledger again after the call.
\<close>

theorem createInvitation_normalizes_and_indexes:
  assumes "createInvitation env inp s = (newInvite, s')"
  shows "i_email newInvite = toLowerCase (trim (n_email inp)) \<and>
         i_teamId newInvite = n_teamId inp \<and>
         getInvitation (i_id newInvite) s' = Some newInvite \<and>
         invitations_by_email s' (toLowerCase (trim (n_email inp)), n_teamId inp)
           = Some (i_id newInvite) \<and>
         (ledgerInv s \<longrightarrow> ledgerInv s')"
proof -
  have inv: "ledgerInv s \<longrightarrow> ledgerInv s'"
    using ledgerInv_createInvitation [of s env inp] assms by simp
  have rest: "i_email newInvite = toLowerCase (trim (n_email inp)) \<and>
         i_teamId newInvite = n_teamId inp \<and>
         getInvitation (i_id newInvite) s' = Some newInvite \<and>
         invitations_by_email s' (toLowerCase (trim (n_email inp)), n_teamId inp)
           = Some (i_id newInvite)"
    using assms
    by (auto simp: createInvitation_def Let_def getInvitation_def kv_get_kv_set)
  from inv rest show ?thesis by blast
qed

theorem createInvitation_normalizes_and_indexes_witness:
  "i_email (fst (createInvitation env0 input0 st0)) = ''bob@x.com'' \<and>
   getInvitation ''id1'' (snd (createInvitation env0 input0 st0))
     = Some (fst (createInvitation env0 input0 st0)) \<and>
   invitations_by_email (snd (createInvitation env0 input0 st0)) (''bob@x.com'', ''tA'')
     = Some ''id1'' \<and>
   ledgerInv st0 \<and> ledgerInv (snd (createInvitation env0 input0 st0))"
proof -
  have norm: "toLowerCase (trim (n_email input0)) = ''bob@x.com''"
    by (simp add: input0_def toLowerCase_def toLowerCase_char_def trim_def isWhiteSpace_def)
  have id1: "i_id (fst (createInvitation env0 input0 st0)) = ''id1''"
    by (simp add: createInvitation_def Let_def env0_def)
  have tA: "n_teamId input0 = ''tA''"
    by (simp add: input0_def)
  have inv0: "ledgerInv st0"
    by (simp add: ledgerInv_def st0_def)
  show ?thesis
    using createInvitation_normalizes_and_indexes
            [of env0 input0 st0 "fst (createInvitation env0 input0 st0)"
                "snd (createInvitation env0 input0 st0)"]
          norm id1 tA inv0
    by simp
qed

section \<open>The scan over the teams\<close>

lemma sameButTeams_refl: "sameButTeams s s"
  by (simp add: sameButTeams_def)

lemma sameButTeams_trans:
  assumes "sameButTeams s s1" "sameButTeams s1 s2"
  shows "sameButTeams s s2"
proof -
  from assms(1) obtain cs where cs: "r_calls s1 = r_calls s @ cs" "list_all isListCall cs"
    unfolding sameButTeams_def by blast
  from assms(2) obtain cs' where cs': "r_calls s2 = r_calls s1 @ cs'" "list_all isListCall cs'"
    unfolding sameButTeams_def by blast
  have "r_calls s2 = r_calls s @ (cs @ cs') \<and> list_all isListCall (cs @ cs')"
    using cs cs' by simp
  then have "\<exists>cs. r_calls s2 = r_calls s @ cs \<and> list_all isListCall cs"
    by blast
  with assms show ?thesis
    unfolding sameButTeams_def by simp
qed

lemma sameButTeams_update:
  "sameButTeams s (s\<lparr>r_calls := r_calls s @ [listCall t], teams := tm\<rparr>)"
  by (simp add: sameButTeams_def listCall_def isListCall_def)

lemma getTeam_id: "getTeam i s = Some t \<Longrightarrow> t_id t = i"
  by (auto simp: getTeam_def dest: kv_get_Some)

lemma getTeam_update:
  "getTeam i (s\<lparr>r_calls := fc, teams := kv_set t_id v (teams s)\<rparr>) =
     (if i = t_id v then Some v else getTeam i s)"
  by (simp add: getTeam_def kv_get_kv_set)

lemma scanned_update: "scanned (s\<lparr>r_calls := fc, teams := tm\<rparr>) = scanned s"
  by (rule ext) (simp add: scanned_def liveMembers_def)

lemma liveRoster_update: "liveRoster (s\<lparr>r_calls := fc, teams := tm\<rparr>) = liveRoster s"
  by (rule ext) (simp add: liveRoster_def liveMembers_def)

lemma isMemberOf_update: "isMemberOf (s\<lparr>r_calls := fc, teams := tm\<rparr>) = isMemberOf s"
  by (rule ext)+ (simp add: isMemberOf_def scanned_update liveRoster_update)

lemma hasCapacity_update: "hasCapacity (s\<lparr>r_calls := fc, teams := tm\<rparr>) = hasCapacity s"
  by (rule ext) (simp add: hasCapacity_def scanned_update liveRoster_update)

lemma refreshedTeam_update:
  "refreshedTeam env (s\<lparr>r_calls := fc, teams := tm\<rparr>) = refreshedTeam env s"
  by (rule ext) (simp add: refreshedTeam_def liveRoster_update)

lemma scanTeam_expired:
  "t_tokenStatus team = Expired \<Longrightarrow>
   scanTeam env key kc email ne team sel s = (Continue sel, s)"
  by (simp add: scanTeam_def)

lemma scanTeam_fetchError:
  assumes "getTeam (t_id team) s = Some team" "t_tokenStatus team \<noteq> Expired"
    "r_members s (t_accessToken team) (t_accountId team) = FetchError msg"
  shows "scanTeam env key kc email ne team sel s =
     (Continue sel,
      s\<lparr>r_calls := r_calls s @ [listCall team],
        teams := kv_set t_id (team\<lparr>t_tokenStatus := Expired, t_updatedAt := now env\<rparr>)
                   (teams s)\<rparr>)"
  using assms
  by (simp add: scanTeam_def fetchTeamMembers_def scanCatch_def markExpired_def updateTeam_def
        getTeam_def Let_def listCall_def)

lemma scanTeam_fetched:
  assumes "getTeam (t_id team) s = Some team" "t_tokenStatus team \<noteq> Expired"
    "r_members s (t_accessToken team) (t_accountId team) = members"
    "members = Items ms \<or> members = NonArray"
  shows "scanTeam env key kc email ne team sel s =
     (if ne \<in> set (memberEmails (nonOwnerMembers members))
      then (Return (AlreadyMember (t_name team) email),
            incrementKeyUsage kc (snd (createInvitation env
               (joinInvitation env key kc email (t_id team))
               (s\<lparr>r_calls := r_calls s @ [listCall team],
                  teams := kv_set t_id
                    (team\<lparr>t_memberCount := length (nonOwnerMembers members),
                          t_tokenStatus := Active, t_updatedAt := now env\<rparr>) (teams s)\<rparr>))))
      else (Continue (if length (nonOwnerMembers members) < 4 \<and> sel = None
                      then Some (team\<lparr>t_memberCount := length (nonOwnerMembers members),
                                      t_tokenStatus := Active, t_updatedAt := now env\<rparr>)
                      else sel),
            s\<lparr>r_calls := r_calls s @ [listCall team],
              teams := kv_set t_id
                (team\<lparr>t_memberCount := length (nonOwnerMembers members),
                      t_tokenStatus := Active, t_updatedAt := now env\<rparr>) (teams s)\<rparr>))"
proof (cases "ne \<in> set (memberEmails (nonOwnerMembers members))")
  case True
  with assms show ?thesis
    apply (simp only: scanTeam_def fetchTeamMembers_def listCall_def)
    apply (elim disjE)
     apply (simp_all add: updateTeam_def getTeam_def Let_def split_def)
    done
next
  case False
  with assms show ?thesis
    apply (simp only: scanTeam_def fetchTeamMembers_def listCall_def)
    apply (elim disjE)
     apply (simp_all add: updateTeam_def getTeam_def Let_def split_def)
    done
qed

lemma scanned_cases:
  "scanned s team \<Longrightarrow>
   (\<exists>ms. liveMembers s team = Items ms) \<or> liveMembers s team = NonArray"
  by (cases "liveMembers s team") (simp_all add: scanned_def)

lemma not_scanned_cases:
  "\<not> scanned s team \<Longrightarrow> t_tokenStatus team \<noteq> Expired \<Longrightarrow>
   \<exists>msg. liveMembers s team = FetchError msg"
  by (cases "liveMembers s team") (simp_all add: scanned_def)

lemma scanTeam_scanned:
  assumes "getTeam (t_id team) s = Some team" "scanned s team"
  shows "scanTeam env key kc email ne team sel s =
     (if isMemberOf s ne team
      then (Return (AlreadyMember (t_name team) email),
            incrementKeyUsage kc (snd (createInvitation env
               (joinInvitation env key kc email (t_id team))
               (s\<lparr>r_calls := r_calls s @ [listCall team],
                  teams := kv_set t_id (refreshedTeam env s team) (teams s)\<rparr>))))
      else (Continue (if hasCapacity s team \<and> sel = None
                      then Some (refreshedTeam env s team) else sel),
            s\<lparr>r_calls := r_calls s @ [listCall team],
              teams := kv_set t_id (refreshedTeam env s team) (teams s)\<rparr>))"
proof -
  have ne: "t_tokenStatus team \<noteq> Expired"
    using assms(2) by (simp add: scanned_def)
  obtain ms where ms: "liveMembers s team = Items ms \<or> liveMembers s team = NonArray"
    using scanned_cases [OF assms(2)] by blast
  have m: "r_members s (t_accessToken team) (t_accountId team) = liveMembers s team"
    by (simp add: liveMembers_def)
  show ?thesis
    unfolding scanTeam_fetched [OF assms(1) ne m ms]
    using assms(2)
    by (simp add: isMemberOf_def hasCapacity_def refreshedTeam_def liveRoster_def)
qed

lemma scan_outcome:
  assumes "distinct (map t_id ts)" "\<forall>t\<in>set ts. getTeam (t_id t) s = Some t"
  shows "\<exists>s1. sameButTeams s s1 \<and> scanResult env key kc email ne ts sel s s1"
  using assms
proof (induction ts arbitrary: sel s)
  case Nil
  show ?case
    by (rule exI [of _ s]) (simp add: scanResult_def sameButTeams_refl split: option.splits)
next
  case (Cons team rest)
  have stored: "getTeam (t_id team) s = Some team"
    using Cons.prems(2) by simp
  have dist: "distinct (map t_id rest)"
    using Cons.prems(1) by simp
  have "t_id team \<notin> t_id ` set rest"
    using Cons.prems(1) by simp
  then have fresh: "\<forall>t\<in>set rest. t_id t \<noteq> t_id team"
    by (metis imageI)
  have rest: "\<forall>t\<in>set rest. getTeam (t_id t) s = Some t"
    using Cons.prems(2) by simp
  show ?case
  proof (cases "t_tokenStatus team = Expired")
    case True
    then have no: "\<not> isMemberOf s ne team" "\<not> hasCapacity s team"
      by (simp_all add: isMemberOf_def hasCapacity_def scanned_def)
    from Cons.IH [OF dist rest, of sel] obtain s1
      where s1: "sameButTeams s s1" "scanResult env key kc email ne rest sel s s1"
      by blast
    have "scanResult env key kc email ne (team # rest) sel s s1"
      using s1(2) True no
      by (auto simp: scanResult_def scanTeam_expired split: option.splits)
    with s1(1) show ?thesis by blast
  next
    case False
    show ?thesis
    proof (cases "scanned s team")
      case unscanned: False
      then have no: "\<not> isMemberOf s ne team" "\<not> hasCapacity s team"
        by (simp_all add: isMemberOf_def hasCapacity_def)
      obtain msg where "liveMembers s team = FetchError msg"
        using not_scanned_cases [OF unscanned False] by blast
      then have msg: "r_members s (t_accessToken team) (t_accountId team) = FetchError msg"
        by (simp add: liveMembers_def)
      define s' where "s' = s\<lparr>r_calls := r_calls s @ [listCall team],
          teams := kv_set t_id (team\<lparr>t_tokenStatus := Expired, t_updatedAt := now env\<rparr>)
                     (teams s)\<rparr>"
      have step: "scanTeam env key kc email ne team sel s = (Continue sel, s')"
        unfolding s'_def by (rule scanTeam_fetchError [OF stored False msg])
      have rest': "\<forall>t\<in>set rest. getTeam (t_id t) s' = Some t"
        using rest fresh unfolding s'_def by (simp add: getTeam_update)
      from Cons.IH [OF dist rest', of sel] obtain s1
        where s1: "sameButTeams s' s1" "scanResult env key kc email ne rest sel s' s1"
        by blast
      have same: "sameButTeams s s1"
        using sameButTeams_trans [OF _ s1(1)] unfolding s'_def
        by (simp add: sameButTeams_update)
      have "scanResult env key kc email ne (team # rest) sel s s1"
        using s1(2) no False step unfolding s'_def
        by (auto simp: scanResult_def isMemberOf_update hasCapacity_update refreshedTeam_update
              split: option.splits)
      with same show ?thesis by blast
    next
      case True
      define s' where "s' = s\<lparr>r_calls := r_calls s @ [listCall team],
          teams := kv_set t_id (refreshedTeam env s team) (teams s)\<rparr>"
      have same': "sameButTeams s s'"
        unfolding s'_def by (simp add: sameButTeams_update)
      show ?thesis
      proof (cases "isMemberOf s ne team")
        case member: True
        have "scanResult env key kc email ne (team # rest) sel s s'"
          using member unfolding s'_def
          by (simp add: scanResult_def scanTeam_scanned [OF stored True])
        with same' show ?thesis by blast
      next
        case nomember: False
        define sel' where "sel' = (if hasCapacity s team \<and> sel = None
                                   then Some (refreshedTeam env s team) else sel)"
        have step: "scanTeam env key kc email ne team sel s = (Continue sel', s')"
          using nomember unfolding s'_def sel'_def
          by (simp add: scanTeam_scanned [OF stored True])
        have idr: "t_id (refreshedTeam env s team) = t_id team"
          by (simp add: refreshedTeam_def)
        have rest': "\<forall>t\<in>set rest. getTeam (t_id t) s' = Some t"
          using rest fresh unfolding s'_def by (simp add: getTeam_update idr)
        from Cons.IH [OF dist rest', of sel'] obtain s1
          where s1: "sameButTeams s' s1" "scanResult env key kc email ne rest sel' s' s1"
          by blast
        have same: "sameButTeams s s1"
          by (rule sameButTeams_trans [OF same' s1(1)])
        have "scanResult env key kc email ne (team # rest) sel s s1"
          using s1(2) nomember False step unfolding s'_def sel'_def
          by (auto simp: scanResult_def isMemberOf_update hasCapacity_update
                refreshedTeam_update split: option.splits)
        with same show ?thesis by blast
      qed
    qed
  qed
qed

lemma joinedI:
  "sameButTeams s s1 \<Longrightarrow>
   joined env key kc email s
     (incrementKeyUsage kc (snd (createInvitation env (joinInvitation env key kc email tid) s1)))"
  unfolding joined_def by blast

lemma joined_trans:
  "sameButTeams s s1 \<Longrightarrow> joined env key kc email s1 s' \<Longrightarrow> joined env key kc email s s'"
  unfolding joined_def by (blast intro: sameButTeams_trans)

lemma updateTeam_frame: "updateTeam env i u s = Some (t', s') \<Longrightarrow> sameButTeams s s'"
  by (auto simp: updateTeam_def sameButTeams_def Let_def split: option.splits)

lemma fetchTeamMembers_frame: "fetchTeamMembers s tok acc = (m, s') \<Longrightarrow> sameButTeams s s'"
  by (auto simp: fetchTeamMembers_def sameButTeams_def isListCall_def)

lemma scanCatch_frame:
  "scanCatch env team sel s = (out, s') \<Longrightarrow> sameButTeams s s' \<and> (\<forall>r. out \<noteq> Return r)"
  by (auto simp: scanCatch_def markExpired_def sameButTeams_refl
        split: option.splits dest: updateTeam_frame)

lemma scanTeam_frame:
  assumes "scanTeam env key kc email ne team sel s = (out, s')"
  shows "case out of Return r \<Rightarrow> (\<exists>nm. r = AlreadyMember nm email) \<and> joined env key kc email s s'
         | _ \<Rightarrow> sameButTeams s s'"
proof (cases "t_tokenStatus team = Expired")
  case True
  with assms show ?thesis
    by (auto simp: scanTeam_def sameButTeams_refl)
next
  case False
  obtain members s0 where f: "fetchTeamMembers s (t_accessToken team) (t_accountId team) = (members, s0)"
    by (cases "fetchTeamMembers s (t_accessToken team) (t_accountId team)")
  have s0: "sameButTeams s s0"
    by (rule fetchTeamMembers_frame [OF f])
  have catch: "scanCatch env team sel s0 = (out, s') \<Longrightarrow> ?thesis"
    using scanCatch_frame [of env team sel s0 out s'] sameButTeams_trans [OF s0]
    by (cases out) auto
  show ?thesis
  proof (cases "\<exists>msg. members = FetchError msg")
    case True
    with assms False f catch show ?thesis
      by (auto simp: scanTeam_def)
  next
    case notError: False
    let ?u = "updateTeam env (t_id team)
                (\<lambda>t. t\<lparr>t_memberCount := length (nonOwnerMembers members), t_tokenStatus := Active\<rparr>) s0"
    have body: "scanTeam env key kc email ne team sel s =
        (case ?u of
           None \<Rightarrow> scanCatch env team sel s0
         | Some (refreshed, s1) \<Rightarrow>
             if ne \<in> set (memberEmails (nonOwnerMembers members))
             then (Return (AlreadyMember (t_name refreshed) email),
                   incrementKeyUsage kc (snd (createInvitation env
                      (joinInvitation env key kc email (t_id refreshed)) s1)))
             else if length (nonOwnerMembers members) < 4 \<and> sel = None
             then (Continue (Some refreshed), s1)
             else (Continue sel, s1))"
      using False f notError
      by (cases members) (simp_all add: scanTeam_def Let_def split_def split: option.splits)
    show ?thesis
    proof (cases ?u)
      case None
      with assms body catch show ?thesis by simp
    next
      case (Some p)
      obtain refreshed s1 where p: "p = (refreshed, s1)" by (cases p)
      have s1: "sameButTeams s s1"
        using sameButTeams_trans [OF s0 updateTeam_frame] Some p by blast
      from assms body Some p s1 show ?thesis
        by (auto intro: joinedI split: if_splits)
    qed
  qed
qed

lemma scan_frame:
  assumes "scan env key kc email ne ts sel s = (out, s')"
  shows "case out of Returned r \<Rightarrow> (\<exists>nm. r = AlreadyMember nm email) \<and> joined env key kc email s s'
         | _ \<Rightarrow> sameButTeams s s'"
  using assms
proof (induction ts arbitrary: sel s)
  case Nil
  then show ?case by (auto simp: sameButTeams_refl)
next
  case (Cons team rest)
  obtain o1 s1 where st: "scanTeam env key kc email ne team sel s = (o1, s1)"
    by (cases "scanTeam env key kc email ne team sel s")
  note fr = scanTeam_frame [OF st]
  show ?case
  proof (cases o1)
    case (Continue sel')
    with st Cons.prems have "scan env key kc email ne rest sel' s1 = (out, s')"
      by simp
    from Cons.IH [OF this] fr Continue show ?thesis
      by (cases out) (auto intro: joined_trans sameButTeams_trans)
  next
    case (Return r)
    with st Cons.prems fr show ?thesis by auto
  next
    case (Throw m)
    with st Cons.prems fr show ?thesis by auto
  qed
qed

section \<open>The invite step\<close>

lemma sameStore_refl: "sameStore s s"
  by (simp add: sameStore_def)

lemma sameStore_trans: "sameStore s s1 \<Longrightarrow> sameStore s1 s2 \<Longrightarrow> sameStore s s2"
  by (simp add: sameStore_def)

lemma sameButTeams_sameStore: "sameButTeams s s' \<Longrightarrow> sameStore s s'"
  by (simp add: sameButTeams_def sameStore_def)

lemma updateTeam_sameStore: "updateTeam env i u s = Some (t', s') \<Longrightarrow> sameStore s s'"
  by (rule sameButTeams_sameStore [OF updateTeam_frame])

lemma usedStore_cong:
  "sameStore s s1 \<Longrightarrow> usedStore env key kc email tid s1 s2 \<Longrightarrow> sameStore s2 s' \<Longrightarrow>
   usedStore env key kc email tid s s'"
  by (simp add: sameStore_def usedStore_def)

lemma use_key:
  assumes "getAccessKey kc s = Some key"
  shows "usedStore env key kc email tid s
           (incrementKeyUsage kc (snd (createInvitation env
               (joinInvitation env key kc email tid) s)))"
  using assms
  by (simp add: usedStore_def incrementKeyUsage_def createInvitation_def Let_def
        joinInvitation_def joinRecord_def getAccessKey_def)

lemma joined_usedStore:
  assumes "joined env key kc email s s'" "getAccessKey kc s = Some key"
  shows "\<exists>tid. usedStore env key kc email tid s s'"
proof -
  from assms(1) obtain tid s1 where s1: "sameButTeams s s1"
    and s': "s' = incrementKeyUsage kc (snd (createInvitation env
               (joinInvitation env key kc email tid) s1))"
    unfolding joined_def by blast
  have k: "getAccessKey kc s1 = Some key"
    using assms(2) s1 by (simp add: getAccessKey_def sameButTeams_def)
  have "usedStore env key kc email tid s s'"
    unfolding s'
    by (rule usedStore_cong [OF sameButTeams_sameStore [OF s1] use_key [OF k] sameStore_refl])
  then show ?thesis by blast
qed

lemma inviteCatch_fails: "\<not> isSuccess (fst (inviteCatch env c msg s))"
  by (simp add: inviteCatch_def isSuccess_def split: option.splits prod.splits)

lemma inviteCatch_calls: "r_calls (snd (inviteCatch env c msg s)) = r_calls s"
  by (auto simp: inviteCatch_def markExpired_def updateTeam_def Let_def split: option.splits)

lemma invite_success:
  assumes "isSuccess (fst (invite env key kc email c s))" "getAccessKey kc s = Some key"
  shows "usedStore env key kc email (t_id c) s (snd (invite env key kc email c s))"
proof -
  define s0 where "s0 = s\<lparr>r_calls := r_calls s @
                   [InviteMember (t_accessToken c) (t_accountId c) email]\<rparr>"
  define s2 where "s2 = incrementKeyUsage kc (snd (createInvitation env
               (joinInvitation env key kc email (t_id c)) s0))"
  let ?u = "updateTeam env (t_id c)
              (\<lambda>t. t\<lparr>t_memberCount := t_memberCount c + 1, t_lastInviteAt := Some (now env)\<rparr>) s2"
  have inv: "invite env key kc email c s =
     (case r_invite s (t_accessToken c) (t_accountId c) email of
        Some msg \<Rightarrow> inviteCatch env c msg s0
      | None \<Rightarrow> (case ?u of None \<Rightarrow> inviteCatch env c ''Team not found'' s2
                          | Some (updated, s3) \<Rightarrow> (InvitationSent, s3)))"
    by (simp add: invite_def Let_def s0_def s2_def split_def split: option.splits)
  have s0: "sameStore s s0"
    by (simp add: sameStore_def s0_def)
  have k0: "getAccessKey kc s0 = Some key"
    using assms(2) by (simp add: getAccessKey_def s0_def)
  have used: "usedStore env key kc email (t_id c) s0 s2"
    unfolding s2_def by (rule use_key [OF k0])
  show ?thesis
  proof (cases "r_invite s (t_accessToken c) (t_accountId c) email")
    case (Some msg)
    with assms(1) inv inviteCatch_fails show ?thesis by simp
  next
    case None
    show ?thesis
    proof (cases ?u)
      case none: None
      with assms(1) inv None inviteCatch_fails show ?thesis by simp
    next
      case (Some p)
      obtain updated s3 where p: "p = (updated, s3)" by (cases p)
      have "sameStore s2 s3"
        using updateTeam_sameStore Some p by blast
      from usedStore_cong [OF s0 used this] inv None Some p show ?thesis by simp
    qed
  qed
qed

lemma invite_calls:
  "r_calls (snd (invite env key kc email c s)) =
     r_calls s @ [InviteMember (t_accessToken c) (t_accountId c) email]"
  by (auto simp: invite_def Let_def inviteCatch_calls createInvitation_def
        incrementKeyUsage_def updateTeam_def split: option.splits)

lemma invite_response:
  "fst (invite env key kc email c s) = InvitationSent \<or>
   (\<exists>msg. fst (invite env key kc email c s) = InviteFailed msg) \<or>
   (\<exists>msg. fst (invite env key kc email c s) = InternalError msg)"
  by (auto simp: invite_def Let_def inviteCatch_def split_def split: option.splits)

section \<open>The order of the teams\<close>

lemma set_listTeams: "set (listTeams s) = set (teams s)"
  by (simp add: listTeams_def)

lemma sorted_listTeams:
  "sorted_wrt (\<lambda>a b. t_createdAt b \<le> t_createdAt a) (listTeams s)"
proof -
  have "sorted (map (\<lambda>t. - t_createdAt t) (listTeams s))"
    unfolding listTeams_def by (rule sorted_sort_key)
  then show ?thesis
    by (simp add: sorted_map)
qed

lemma distinct_listTeams:
  "distinct (map t_id (teams s)) \<Longrightarrow> distinct (map t_id (listTeams s))"
  by (simp add: distinct_map listTeams_def)

lemma stored_listTeams:
  assumes "distinct (map t_id (teams s))"
  shows "\<forall>t\<in>set (listTeams s). getTeam (t_id t) s = Some t"
  using assms by (simp add: set_listTeams getTeam_def kv_get_distinct)

section \<open>The join handler\<close>

lemma join_scan:
  assumes "email \<noteq> []" "kc \<noteq> []" "getAccessKey kc s = Some key" "usable key"
  shows "join env kc email s =
     (case scan env key kc email (toLowerCase email) (listTeams s) None s of
        (Returned response, s') \<Rightarrow> (response, s')
      | (Threw msg, s') \<Rightarrow> (InternalError msg, s')
      | (Finished None, s') \<Rightarrow> (NoAvailableTeams, s')
      | (Finished (Some selectedTeam), s') \<Rightarrow> invite env key kc email selectedTeam s')"
  using assms by (auto simp: join_def usable_def)

lemma join_cases:
  assumes "email \<noteq> []" "kc \<noteq> []" "getAccessKey kc s = Some key" "usable key"
    "distinct (map t_id (teams s))"
  shows "\<exists>s1. sameButTeams s s1 \<and>
     (case find (isMemberOf s (toLowerCase email)) (listTeams s) of
        Some t \<Rightarrow>
          join env kc email s =
            (AlreadyMember (t_name t) email,
             incrementKeyUsage kc (snd (createInvitation env
                (joinInvitation env key kc email (t_id t)) s1)))
      | None \<Rightarrow>
          r_calls s1 =
            r_calls s @
              map listCall (filter (\<lambda>t. t_tokenStatus t \<noteq> Expired) (listTeams s)) \<and>
          (case find (hasCapacity s) (listTeams s) of
             None \<Rightarrow> join env kc email s = (NoAvailableTeams, s1)
           | Some c \<Rightarrow>
               join env kc email s = invite env key kc email (refreshedTeam env s c) s1))"
proof -
  from scan_outcome [OF distinct_listTeams [OF assms(5)] stored_listTeams [OF assms(5)],
      of env key kc email "toLowerCase email" None]
  obtain s1 where s1: "sameButTeams s s1"
    and r: "scanResult env key kc email (toLowerCase email) (listTeams s) None s s1"
    by blast
  have "case find (isMemberOf s (toLowerCase email)) (listTeams s) of
        Some t \<Rightarrow>
          join env kc email s =
            (AlreadyMember (t_name t) email,
             incrementKeyUsage kc (snd (createInvitation env
                (joinInvitation env key kc email (t_id t)) s1)))
      | None \<Rightarrow>
          r_calls s1 =
            r_calls s @
              map listCall (filter (\<lambda>t. t_tokenStatus t \<noteq> Expired) (listTeams s)) \<and>
          (case find (hasCapacity s) (listTeams s) of
             None \<Rightarrow> join env kc email s = (NoAvailableTeams, s1)
           | Some c \<Rightarrow>
               join env kc email s = invite env key kc email (refreshedTeam env s c) s1)"
    using r unfolding scanResult_def join_scan [OF assms(1-4)]
    by (auto split: option.splits)
  with s1 show ?thesis by blast
qed

lemma sameButTeams_sent:
  assumes "sameButTeams s s'"
  shows "invitesSent s' = invitesSent s \<and> removalsSent s' = removalsSent s"
proof -
  from assms obtain cs where cs: "r_calls s' = r_calls s @ cs" "list_all isListCall cs"
    unfolding sameButTeams_def by blast
  have "filter isInviteCall cs = [] \<and> filter isRemoveCall cs = []"
    using cs(2)
    by (induction cs) (auto simp: isListCall_def isInviteCall_def isRemoveCall_def
          split: RemoteCall.splits)
  with cs(1) show ?thesis
    by (simp add: invitesSent_def removalsSent_def)
qed

lemma use_key_calls:
  "r_calls (incrementKeyUsage kc (snd (createInvitation env inp s))) = r_calls s"
  by (simp add: incrementKeyUsage_def createInvitation_def Let_def split: option.splits)

lemma find_first:
  assumes "xs = pre @ c # post" "\<forall>t\<in>set pre. \<not> P t" "P c"
  shows "find P xs = Some c"
  using assms(2) unfolding assms(1) by (induction pre) (simp_all add: assms(3))

lemma find_none: "(\<forall>t\<in>set xs. \<not> P t) \<Longrightarrow> find P xs = None"
  by (simp add: find_None_iff)

text \<open>
  C6. Take a request that reaches the scan (both fields present, the key in the store
  and usable) on a team table that holds one record per id, as a KV table does. Let
  \<open>c\<close> be the first team in the order of the scan that is scanned and has fewer
  than 4 non-owner members (teams after it may be under capacity too). If no scanned team
  has the email in its roster, the handler requests the member listing of every team that
  is not marked expired, those after \<open>c\<close> included, and then sends one invite, to \<open>c\<close>.
  If a team after \<open>c\<close> has the email in its roster, the handler answers on the
  already-a-member path and sends no invite: selecting \<open>c\<close> did not end the scan.
\<close>

theorem join_candidate_selection:
  assumes "email \<noteq> []" "key_code \<noteq> []" "getAccessKey key_code s = Some key" "usable key"
    and "distinct (map t_id (teams s))"
    and "listTeams s = pre @ c # post" "\<forall>t\<in>set pre. \<not> hasCapacity s t" "hasCapacity s c"
  shows "((\<forall>t\<in>set (listTeams s). \<not> isMemberOf s (toLowerCase email) t) \<longrightarrow>
            r_calls (snd (join env key_code email s)) =
              r_calls s @
              map listCall (filter (\<lambda>t. t_tokenStatus t \<noteq> Expired) (listTeams s)) @
              [InviteMember (t_accessToken c) (t_accountId c) email]) \<and>
         (\<forall>m\<in>set post. isMemberOf s (toLowerCase email) m \<longrightarrow>
            (\<exists>name. fst (join env key_code email s) = AlreadyMember name email) \<and>
            invitesSent (snd (join env key_code email s)) = invitesSent s)"
proof -
  from join_cases [OF assms(1-5), of env] obtain s1 where s1: "sameButTeams s s1"
    and r: "case find (isMemberOf s (toLowerCase email)) (listTeams s) of
        Some t \<Rightarrow>
          join env key_code email s =
            (AlreadyMember (t_name t) email,
             incrementKeyUsage key_code (snd (createInvitation env
                (joinInvitation env key key_code email (t_id t)) s1)))
      | None \<Rightarrow>
          r_calls s1 =
            r_calls s @
              map listCall (filter (\<lambda>t. t_tokenStatus t \<noteq> Expired) (listTeams s)) \<and>
          (case find (hasCapacity s) (listTeams s) of
             None \<Rightarrow> join env key_code email s = (NoAvailableTeams, s1)
           | Some c \<Rightarrow>
               join env key_code email s = invite env key key_code email (refreshedTeam env s c) s1)"
    by blast
  have cand: "find (hasCapacity s) (listTeams s) = Some c"
    by (rule find_first [OF assms(6-8)])
  have first: "(\<forall>t\<in>set (listTeams s). \<not> isMemberOf s (toLowerCase email) t) \<longrightarrow>
            r_calls (snd (join env key_code email s)) =
              r_calls s @
              map listCall (filter (\<lambda>t. t_tokenStatus t \<noteq> Expired) (listTeams s)) @
              [InviteMember (t_accessToken c) (t_accountId c) email]"
  proof
    assume "\<forall>t\<in>set (listTeams s). \<not> isMemberOf s (toLowerCase email) t"
    then have "find (isMemberOf s (toLowerCase email)) (listTeams s) = None"
      by (rule find_none)
    with r cand show "r_calls (snd (join env key_code email s)) =
              r_calls s @
              map listCall (filter (\<lambda>t. t_tokenStatus t \<noteq> Expired) (listTeams s)) @
              [InviteMember (t_accessToken c) (t_accountId c) email]"
      by (simp add: invite_calls refreshedTeam_def)
  qed
  have second: "\<forall>m\<in>set post. isMemberOf s (toLowerCase email) m \<longrightarrow>
            (\<exists>name. fst (join env key_code email s) = AlreadyMember name email) \<and>
            invitesSent (snd (join env key_code email s)) = invitesSent s"
  proof (intro ballI impI)
    fix m assume m: "m \<in> set post" "isMemberOf s (toLowerCase email) m"
    then have "m \<in> set (listTeams s)"
      by (simp add: assms(6))
    with m(2) obtain t where t: "find (isMemberOf s (toLowerCase email)) (listTeams s) = Some t"
      by (cases "find (isMemberOf s (toLowerCase email)) (listTeams s)")
         (auto simp: find_None_iff)
    with r have j: "join env key_code email s =
            (AlreadyMember (t_name t) email,
             incrementKeyUsage key_code (snd (createInvitation env
                (joinInvitation env key key_code email (t_id t)) s1)))"
      by simp
    have "invitesSent (snd (join env key_code email s)) = invitesSent s1"
      unfolding j by (simp add: invitesSent_def use_key_calls)
    with sameButTeams_sent [OF s1] j
    show "(\<exists>name. fst (join env key_code email s) = AlreadyMember name email) \<and>
            invitesSent (snd (join env key_code email s)) = invitesSent s"
      by simp
  qed
  from first second show ?thesis by blast
qed

lemma join_missing: "email = [] \<or> kc = [] \<Longrightarrow> join env kc email s = (MissingFields, s)"
  by (auto simp: join_def)

lemma join_used:
  assumes "email \<noteq> []" "kc \<noteq> []" "getAccessKey kc s = Some key" "\<not> usable key"
  shows "join env kc email s = (KeyAlreadyUsed, s)"
  using assms by (auto simp: join_def usable_def)

lemma join_invalid:
  assumes "email \<noteq> []" "kc \<noteq> []" "getAccessKey kc s = None"
  shows "join env kc email s = (InvalidKey, s)"
  using assms by (auto simp: join_def)

text \<open>What a usable key leads to: the answer is never \<open>KeyAlreadyUsed\<close>, and a success
  leaves the store used once.\<close>

lemma join_usable:
  assumes "email \<noteq> []" "kc \<noteq> []" "getAccessKey kc s = Some key" "usable key"
  shows "fst (join env kc email s) \<noteq> KeyAlreadyUsed \<and>
         (isSuccess (fst (join env kc email s)) \<longrightarrow>
            (\<exists>tid. usedStore env key kc email tid s (snd (join env kc email s))))"
proof -
  obtain out s' where sc:
    "scan env key kc email (toLowerCase email) (listTeams s) None s = (out, s')"
    by (cases "scan env key kc email (toLowerCase email) (listTeams s) None s")
  note fr = scan_frame [OF sc]
  note j = join_scan [OF assms, of env]
  show ?thesis
  proof (cases out)
    case (Returned r)
    with fr obtain nm where r: "r = AlreadyMember nm email" and jd: "joined env key kc email s s'"
      by auto
    from joined_usedStore [OF jd assms(3)] j sc Returned r show ?thesis
      by simp
  next
    case (Threw msg)
    with j sc show ?thesis by (simp add: isSuccess_def)
  next
    case (Finished sel)
    with fr have same: "sameButTeams s s'" by simp
    show ?thesis
    proof (cases sel)
      case None
      with j sc Finished show ?thesis by (simp add: isSuccess_def)
    next
      case (Some c)
      with j sc Finished have ji: "join env kc email s = invite env key kc email c s'"
        by simp
      have k': "getAccessKey kc s' = Some key"
        using assms(3) same by (simp add: getAccessKey_def sameButTeams_def)
      have notUsed: "fst (invite env key kc email c s') \<noteq> KeyAlreadyUsed"
        using invite_response [of env key kc email c s'] by auto
      have "isSuccess (fst (invite env key kc email c s')) \<longrightarrow>
              usedStore env key kc email (t_id c) s (snd (invite env key kc email c s'))"
      proof
        assume "isSuccess (fst (invite env key kc email c s'))"
        from usedStore_cong [OF sameButTeams_sameStore [OF same] invite_success [OF this k']
            sameStore_refl]
        show "usedStore env key kc email (t_id c) s (snd (invite env key kc email c s'))" .
      qed
      with notUsed ji show ?thesis by auto
    qed
  qed
qed

lemma success_usable:
  assumes "isSuccess (fst (join env kc email s))" "getAccessKey kc s = Some key"
  shows "email \<noteq> [] \<and> kc \<noteq> [] \<and> usable key"
proof -
  have ne: "email \<noteq> [] \<and> kc \<noteq> []"
    using assms(1) join_missing [of email kc env s] by (auto simp: isSuccess_def)
  have "usable key"
  proof (rule ccontr)
    assume "\<not> usable key"
    from join_used [OF _ _ assms(2) this, of email env] ne
    have "fst (join env kc email s) = KeyAlreadyUsed" by simp
    with assms(1) show False by (simp add: isSuccess_def)
  qed
  with ne show ?thesis by simp
qed

text \<open>
  C3, as amended. For a request with a non-empty email and a non-empty key code whose key
  is in the store, \<open>join\<close> answers \<open>KeyAlreadyUsed\<close> if and only if the key is neither
  unlimited nor temp and its usage count is above 0. In particular, after one successful
  \<open>join\<close> with a key that is neither unlimited nor temp, the next \<open>join\<close> with that key
  (and any non-empty email) answers \<open>KeyAlreadyUsed\<close>.
\<close>

theorem key_already_used_iff:
  assumes "email \<noteq> []" "key_code \<noteq> []" "getAccessKey key_code s = Some key"
  shows "(fst (join env key_code email s) = KeyAlreadyUsed) =
           (\<not> k_isUnlimited key \<and> \<not> k_isTemp key \<and> 0 < k_usageCount key) \<and>
         (\<not> k_isUnlimited key \<and> \<not> k_isTemp key \<and>
          isSuccess (fst (join env key_code email s)) \<and> email' \<noteq> [] \<longrightarrow>
            fst (join env' key_code email' (snd (join env key_code email s))) = KeyAlreadyUsed)"
proof -
  have iff: "(fst (join env key_code email s) = KeyAlreadyUsed) =
           (\<not> k_isUnlimited key \<and> \<not> k_isTemp key \<and> 0 < k_usageCount key)"
  proof (cases "usable key")
    case True
    with join_usable [OF assms True, of env] show ?thesis
      by (auto simp: usable_def)
  next
    case False
    with join_used [OF assms False, of env] show ?thesis
      by (auto simp: usable_def)
  qed
  have again: "\<not> k_isUnlimited key \<and> \<not> k_isTemp key \<and>
          isSuccess (fst (join env key_code email s)) \<and> email' \<noteq> [] \<longrightarrow>
            fst (join env' key_code email' (snd (join env key_code email s))) = KeyAlreadyUsed"
  proof
    assume a: "\<not> k_isUnlimited key \<and> \<not> k_isTemp key \<and>
          isSuccess (fst (join env key_code email s)) \<and> email' \<noteq> []"
    then have ok: "isSuccess (fst (join env key_code email s))" by simp
    have us: "usable key"
      using success_usable [OF ok assms(3)] by simp
    from join_usable [OF assms us, of env] ok obtain tid
      where "usedStore env key key_code email tid s (snd (join env key_code email s))"
      by blast
    then have keys': "keys (snd (join env key_code email s)) =
        kv_set k_code (key\<lparr>k_usageCount := k_usageCount key + 1\<rparr>) (keys s)"
      by (simp add: usedStore_def)
    have code: "k_code key = key_code"
      using assms(3) kv_get_Some [of k_code key_code "keys s" key]
      by (simp add: getAccessKey_def)
    have k': "getAccessKey key_code (snd (join env key_code email s)) =
        Some (key\<lparr>k_usageCount := k_usageCount key + 1\<rparr>)"
      by (simp add: getAccessKey_def keys' kv_get_kv_set code)
    have "\<not> usable (key\<lparr>k_usageCount := k_usageCount key + 1\<rparr>)"
      using a by (simp add: usable_def)
    from join_used [OF _ assms(2) k' this, of email' env'] a
    show "fst (join env' key_code email' (snd (join env key_code email s))) = KeyAlreadyUsed"
      by simp
  qed
  from iff again show ?thesis by blast
qed

text \<open>
  C8, as amended. When \<open>join\<close> succeeds at clock value \<open>T\<close>, the invitation it stored
  has \<open>tempExpireAt = T + h * 3600000\<close> for a temp key, where \<open>h\<close> is the key's
  \<open>tempHours\<close>, or 24 when \<open>tempHours\<close> is unset or 0; for a key that is not temp it has
  no \<open>tempExpireAt\<close>.
\<close>

theorem join_temp_expiry:
  assumes "isSuccess (fst (join env key_code email s))" "getAccessKey key_code s = Some key"
  shows "\<exists>invitation.
           getInvitation (uuid env) (snd (join env key_code email s)) = Some invitation \<and>
           i_status invitation = Success \<and>
           i_isTemp invitation = k_isTemp key \<and>
           i_tempExpireAt invitation =
             (if k_isTemp key
              then Some (now env +
                     (case k_tempHours key of
                        None \<Rightarrow> 24
                      | Some h \<Rightarrow> if h = 0 then 24 else h) * 3600000)
              else None)"
proof -
  have pre: "email \<noteq> []" "key_code \<noteq> []" "usable key"
    using success_usable [OF assms] by simp_all
  from join_usable [OF pre(1,2) assms(2) pre(3), of env] assms(1) obtain tid
    where "usedStore env key key_code email tid s (snd (join env key_code email s))"
    by blast
  then have "getInvitation (uuid env) (snd (join env key_code email s)) =
      Some (joinRecord env key key_code email tid)"
    by (simp add: usedStore_def getInvitation_def kv_get_kv_set joinRecord_def)
  then show ?thesis
    by (simp add: joinRecord_def tempExpireAt_def)
qed


text \<open>
  C7. Take a request that reaches the scan (both fields present, the key in the store
  and usable) on a team table that holds one record per id. If no scanned team has the
  email in its roster and no scanned team has fewer than
  4 non-owner members, \<open>join\<close> answers \<open>NoAvailableTeams\<close>; the invitations, the index
  and the keys are what they were before the call, the key with its usage count
  included, and no invite was sent.
\<close>

theorem join_no_available_teams:
  assumes "email \<noteq> []" "key_code \<noteq> []" "getAccessKey key_code s = Some key" "usable key"
    and "distinct (map t_id (teams s))"
    and "\<forall>t\<in>set (teams s). \<not> isMemberOf s (toLowerCase email) t \<and> \<not> hasCapacity s t"
  shows "fst (join env key_code email s) = NoAvailableTeams \<and>
         invitations (snd (join env key_code email s)) = invitations s \<and>
         invitations_by_email (snd (join env key_code email s)) = invitations_by_email s \<and>
         keys (snd (join env key_code email s)) = keys s \<and>
         getAccessKey key_code (snd (join env key_code email s)) = Some key \<and>
         invitesSent (snd (join env key_code email s)) = invitesSent s"
proof -
  have nomem: "find (isMemberOf s (toLowerCase email)) (listTeams s) = None"
    using assms(6) by (simp add: find_None_iff set_listTeams)
  have nocap: "find (hasCapacity s) (listTeams s) = None"
    using assms(6) by (simp add: find_None_iff set_listTeams)
  from join_cases [OF assms(1-5), of env] nomem nocap obtain s1
    where s1: "sameButTeams s s1" and j: "join env key_code email s = (NoAvailableTeams, s1)"
    by auto
  from s1 sameButTeams_sent [OF s1] assms(3) show ?thesis
    unfolding j by (simp add: sameButTeams_def getAccessKey_def)
qed

lemma sorted_find_first:
  assumes "sorted_wrt R xs" "find P xs = Some c" "t \<in> set xs" "P t"
  shows "t = c \<or> R c t"
  using assms by (induction xs) (auto split: if_splits)

lemma join_invites_newest:
  assumes "email \<noteq> []" "key_code \<noteq> []" "getAccessKey key_code s = Some key" "usable key"
    and "distinct (map t_id (teams s))"
    and "\<forall>t\<in>set (teams s). \<not> isMemberOf s (toLowerCase email) t"
    and "c' \<in> set (teams s)" "hasCapacity s c'"
  shows "sorted_wrt (\<lambda>a b. t_createdAt b \<le> t_createdAt a) (listTeams s) \<and>
         set (listTeams s) = set (teams s) \<and>
         length (listTeams s) = length (teams s) \<and>
         (\<exists>c\<in>set (teams s).
            hasCapacity s c \<and>
            (\<forall>t\<in>set (teams s). hasCapacity s t \<longrightarrow> t_createdAt t \<le> t_createdAt c) \<and>
            r_calls (snd (join env key_code email s)) =
              r_calls s @
              map listCall (filter (\<lambda>t. t_tokenStatus t \<noteq> Expired) (listTeams s)) @
              [InviteMember (t_accessToken c) (t_accountId c) email])"
proof -
  have nomem: "find (isMemberOf s (toLowerCase email)) (listTeams s) = None"
    using assms(6) by (simp add: find_None_iff set_listTeams)
  obtain c where c: "find (hasCapacity s) (listTeams s) = Some c"
    using assms(7,8) by (cases "find (hasCapacity s) (listTeams s)")
      (auto simp: find_None_iff set_listTeams)
  then have cin: "c \<in> set (teams s)" and cap: "hasCapacity s c"
    by (auto simp: find_Some_iff set_listTeams [symmetric])
  have newest: "\<forall>t\<in>set (teams s). hasCapacity s t \<longrightarrow> t_createdAt t \<le> t_createdAt c"
  proof (intro ballI impI)
    fix t assume "t \<in> set (teams s)" "hasCapacity s t"
    then have "t = c \<or> t_createdAt t \<le> t_createdAt c"
      using sorted_find_first [OF sorted_listTeams c, of t] by (simp add: set_listTeams)
    then show "t_createdAt t \<le> t_createdAt c" by auto
  qed
  from join_cases [OF assms(1-5), of env] nomem c obtain s1
    where s1: "r_calls s1 = r_calls s @
              map listCall (filter (\<lambda>t. t_tokenStatus t \<noteq> Expired) (listTeams s))"
      and j: "join env key_code email s = invite env key key_code email (refreshedTeam env s c) s1"
    by auto
  have calls: "r_calls (snd (join env key_code email s)) =
              r_calls s @
              map listCall (filter (\<lambda>t. t_tokenStatus t \<noteq> Expired) (listTeams s)) @
              [InviteMember (t_accessToken c) (t_accountId c) email]"
    unfolding j by (simp add: invite_calls s1 refreshedTeam_def)
  have len: "length (listTeams s) = length (teams s)"
    by (simp add: listTeams_def)
  from sorted_listTeams set_listTeams len cin cap newest calls show ?thesis
    by blast
qed

text \<open>The spec's notions and the handler's agree.\<close>

lemma liveNonOwners_liveRoster: "liveNonOwners s t = liveRoster s t"
  by (simp add: liveNonOwners_def liveRoster_def nonOwnerMembers_def split: FetchResult.splits)

lemma underCapacity_hasCapacity: "underCapacity s t = hasCapacity s t"
  by (simp add: underCapacity_def hasCapacity_def scanned_def liveNonOwners_liveRoster
        split: FetchResult.splits)

lemma toLowerCase_Nil: "(toLowerCase a = []) = (a = [])"
  by (simp add: toLowerCase_def)

lemma holdsSeat_memberEmails:
  "list_ex (\<lambda>m. case m_email m of None \<Rightarrow> False | Some a \<Rightarrow> a \<noteq> [] \<and> toLowerCase a = e) ms
     = (e \<in> set (memberEmails ms))"
  by (induction ms)
     (auto simp: memberEmails_def toLowerCase_Nil split: option.splits)

lemma liveRoster_unscanned:
  "t_tokenStatus t \<noteq> Expired \<Longrightarrow> \<not> scanned s t \<Longrightarrow> liveRoster s t = []"
  by (simp add: scanned_def liveRoster_def nonOwnerMembers_def split: FetchResult.splits)

lemma holdsSeat_isMemberOf: "holdsSeat s e t = isMemberOf s e t"
proof (cases "t_tokenStatus t = Expired")
  case True
  then show ?thesis by (simp add: holdsSeat_def isMemberOf_def scanned_def)
next
  case False
  show ?thesis
  proof (cases "scanned s t")
    case True
    with False show ?thesis
      by (simp add: holdsSeat_def isMemberOf_def liveNonOwners_liveRoster holdsSeat_memberEmails)
  next
    case unscanned: False
    with False liveRoster_unscanned [OF False unscanned] show ?thesis
      by (simp add: holdsSeat_def isMemberOf_def liveNonOwners_liveRoster memberEmails_def)
  qed
qed

text \<open>
  C10, as amended. \<open>DB.listTeams\<close> returns the stored teams ordered by \<open>createdAt\<close>,
  newest first, so \<open>join\<close> scans the teams newest first. For a request that reaches the
  scan (both fields present, the key in the store and usable) on a team table with one
  record per id: when the email holds a seat in no team and some team is under capacity,
  \<open>join\<close> requests the member listings in that order and then invites the most recently
  created team among those that are not marked expired and whose live listing shows
  fewer than 4 non-owner members.
\<close>

theorem listTeams_newest_first:
  "sorted_wrt (\<lambda>a b. t_createdAt b \<le> t_createdAt a) (listTeams s) \<and>
   set (listTeams s) = set (teams s) \<and>
   length (listTeams s) = length (teams s) \<and>
   (email \<noteq> [] \<and> key_code \<noteq> [] \<and> getAccessKey key_code s = Some key \<and> usable key \<and>
    distinct (map t_id (teams s)) \<and>
    (\<forall>t\<in>set (teams s). \<not> holdsSeat s (toLowerCase email) t) \<and>
    (\<exists>t\<in>set (teams s). underCapacity s t) \<longrightarrow>
      (\<exists>c\<in>set (teams s).
         underCapacity s c \<and>
         (\<forall>t\<in>set (teams s). underCapacity s t \<longrightarrow> t_createdAt t \<le> t_createdAt c) \<and>
         r_calls (snd (join env key_code email s)) =
           r_calls s @
           map listCall (filter (\<lambda>t. t_tokenStatus t \<noteq> Expired) (listTeams s)) @
           [InviteMember (t_accessToken c) (t_accountId c) email]))"
proof -
  have len: "length (listTeams s) = length (teams s)"
    by (simp add: listTeams_def)
  have inv: "email \<noteq> [] \<and> key_code \<noteq> [] \<and> getAccessKey key_code s = Some key \<and> usable key \<and>
    distinct (map t_id (teams s)) \<and>
    (\<forall>t\<in>set (teams s). \<not> holdsSeat s (toLowerCase email) t) \<and>
    (\<exists>t\<in>set (teams s). underCapacity s t) \<longrightarrow>
      (\<exists>c\<in>set (teams s).
         underCapacity s c \<and>
         (\<forall>t\<in>set (teams s). underCapacity s t \<longrightarrow> t_createdAt t \<le> t_createdAt c) \<and>
         r_calls (snd (join env key_code email s)) =
           r_calls s @
           map listCall (filter (\<lambda>t. t_tokenStatus t \<noteq> Expired) (listTeams s)) @
           [InviteMember (t_accessToken c) (t_accountId c) email])"
  proof
    assume a: "email \<noteq> [] \<and> key_code \<noteq> [] \<and> getAccessKey key_code s = Some key \<and>
      usable key \<and> distinct (map t_id (teams s)) \<and>
      (\<forall>t\<in>set (teams s). \<not> holdsSeat s (toLowerCase email) t) \<and>
      (\<exists>t\<in>set (teams s). underCapacity s t)"
    then obtain c' where c': "c' \<in> set (teams s)" "hasCapacity s c'"
      unfolding underCapacity_hasCapacity by blast
    from a have h: "email \<noteq> []" "key_code \<noteq> []" "getAccessKey key_code s = Some key"
      "usable key" "distinct (map t_id (teams s))"
      "\<forall>t\<in>set (teams s). \<not> isMemberOf s (toLowerCase email) t"
      unfolding holdsSeat_isMemberOf by simp_all
    from join_invites_newest [OF h c', of env]
    show "\<exists>c\<in>set (teams s).
         underCapacity s c \<and>
         (\<forall>t\<in>set (teams s). underCapacity s t \<longrightarrow> t_createdAt t \<le> t_createdAt c) \<and>
         r_calls (snd (join env key_code email s)) =
           r_calls s @
           map listCall (filter (\<lambda>t. t_tokenStatus t \<noteq> Expired) (listTeams s)) @
           [InviteMember (t_accessToken c) (t_accountId c) email]"
      unfolding underCapacity_hasCapacity by simp
  qed
  from sorted_listTeams [of s] set_listTeams [of s] len inv show ?thesis
    by simp
qed

section \<open>The example states, evaluated\<close>

lemmas example_defs =
  st0_def st1_def stFull_def stExpired_def stUnauthorized_def env0_def env1_def teamA_def
  teamB_def teamC_def mkTeam_def mkKey_def mkMember_def rosterA_def rosterB_def rosterC_def
  remote0_def configOn_def invExpired_def

lemmas handler_defs =
  join_def getAccessKey_def kv_get_def kv_set_def listTeams_def updateTeam_def getTeam_def
  fetchTeamMembers_def nonOwnerMembers_def memberEmails_def toLowerCase_def
  toLowerCase_char_def scanTeam_def scanCatch_def createInvitation_def incrementKeyUsage_def
  invite_def inviteCatch_def markExpired_def joinInvitation_def tempExpireAt_def trim_def
  isWhiteSpace_def getInvitation_def Let_def

lemmas notion_defs =
  liveMembers_def scanned_def liveRoster_def isMemberOf_def hasCapacity_def isSuccess_def
  usable_def invitesSent_def removalsSent_def isInviteCall_def isRemoveCall_def listCall_def

lemma listTeams_st0: "listTeams st0 = [teamB, teamA]"
  by (simp add: listTeams_def example_defs)

lemma listTeams_st1: "listTeams st1 = [teamC, teamA]"
  by (simp add: listTeams_def example_defs)

theorem join_candidate_selection_witness:
  "listTeams st1 = [] @ teamC # [teamA] \<and> hasCapacity st1 teamC \<and> hasCapacity st1 teamA \<and>
   r_calls (snd (join env0 ''tickA'' ''u@x.com'' st1)) =
     [ListMembers ''tokC'' ''accC'', ListMembers ''tokA'' ''accA'',
      InviteMember ''tokC'' ''accC'' ''u@x.com''] \<and>
   isMemberOf st1 (toLowerCase ''A1@x.com'') teamA \<and>
   (\<exists>name. fst (join env0 ''tickA'' ''A1@x.com'' st1) = AlreadyMember name ''A1@x.com'') \<and>
   invitesSent (snd (join env0 ''tickA'' ''A1@x.com'' st1)) = []"
proof -
  have lt: "listTeams st1 = [] @ teamC # [teamA]"
    by (simp add: listTeams_st1)
  have key: "getAccessKey ''tickA'' st1 = Some (mkKey ''tickA'' False False None 0)"
    by (simp add: getAccessKey_def kv_get_def example_defs)
  have us: "usable (mkKey ''tickA'' False False None 0)"
    by (simp add: usable_def mkKey_def)
  have d: "distinct (map t_id (teams st1))"
    by (simp add: example_defs)
  have pre: "\<forall>t\<in>set []. \<not> hasCapacity st1 t"
    by simp
  have capC: "hasCapacity st1 teamC"
    by (simp add: notion_defs nonOwnerMembers_def example_defs)
  have capA: "hasCapacity st1 teamA"
    by (simp add: notion_defs nonOwnerMembers_def example_defs)
  have noC: "\<not> isMemberOf st1 (toLowerCase ''u@x.com'') teamC"
    by (simp add: notion_defs nonOwnerMembers_def memberEmails_def
          toLowerCase_def toLowerCase_char_def example_defs)
  have noA: "\<not> isMemberOf st1 (toLowerCase ''u@x.com'') teamA"
    by (simp add: notion_defs nonOwnerMembers_def memberEmails_def
          toLowerCase_def toLowerCase_char_def example_defs)
  have noU: "\<forall>t\<in>set (listTeams st1). \<not> isMemberOf st1 (toLowerCase ''u@x.com'') t"
    using noC noA by (simp add: listTeams_st1)
  have memA: "isMemberOf st1 (toLowerCase ''A1@x.com'') teamA"
    by (simp add: notion_defs nonOwnerMembers_def memberEmails_def
          toLowerCase_def toLowerCase_char_def example_defs)
  have calls0: "r_calls st1 = []" "invitesSent st1 = []"
    by (simp_all add: invitesSent_def example_defs)
  have lists: "map listCall (filter (\<lambda>t. t_tokenStatus t \<noteq> Expired) (listTeams st1)) =
      [ListMembers ''tokC'' ''accC'', ListMembers ''tokA'' ''accA'']"
    unfolding listTeams_st1 by (simp add: listCall_def teamA_def teamC_def mkTeam_def)
  have cC: "t_accessToken teamC = ''tokC''" "t_accountId teamC = ''accC''"
    by (simp_all add: example_defs)
  from join_candidate_selection [OF _ _ key us d lt pre capC, of "''u@x.com''" env0] noU
  have one: "r_calls (snd (join env0 ''tickA'' ''u@x.com'' st1)) =
     [ListMembers ''tokC'' ''accC'', ListMembers ''tokA'' ''accA'',
      InviteMember ''tokC'' ''accC'' ''u@x.com'']"
    by (simp add: calls0 lists cC)
  from join_candidate_selection [OF _ _ key us d lt pre capC, of "''A1@x.com''" env0] memA
  have two: "(\<exists>name. fst (join env0 ''tickA'' ''A1@x.com'' st1) = AlreadyMember name ''A1@x.com'') \<and>
   invitesSent (snd (join env0 ''tickA'' ''A1@x.com'' st1)) = []"
    by (simp add: calls0)
  from lt capC capA one memA two show ?thesis by blast
qed

lemma key_tickA: "getAccessKey ''tickA'' st0 = Some (mkKey ''tickA'' False False None 0)"
  by (simp add: getAccessKey_def kv_get_def example_defs)

lemma key_used1: "getAccessKey ''used1'' st0 = Some (mkKey ''used1'' False False None 1)"
  by (simp add: getAccessKey_def kv_get_def example_defs)

lemma key_temp24: "getAccessKey ''temp24'' st0 = Some (mkKey ''temp24'' True False (Some 24) 0)"
  by (simp add: getAccessKey_def kv_get_def example_defs)

lemma key_temp0: "getAccessKey ''temp0'' st0 = Some (mkKey ''temp0'' True False (Some 0) 0)"
  by (simp add: getAccessKey_def kv_get_def example_defs)

lemma join_tickA_u: "fst (join env0 ''tickA'' ''u@x.com'' st0) = InvitationSent"
  by (simp add: handler_defs example_defs)

lemma join_temp24_u: "fst (join env0 ''temp24'' ''u@x.com'' st0) = InvitationSent"
  by (simp add: handler_defs example_defs)

lemma join_temp0_u: "fst (join env0 ''temp0'' ''u@x.com'' st0) = InvitationSent"
  by (simp add: handler_defs example_defs)

theorem key_already_used_iff_witness:
  "getAccessKey ''tickA'' st0 = Some (mkKey ''tickA'' False False None 0) \<and>
   fst (join env0 ''tickA'' ''u@x.com'' st0) \<noteq> KeyAlreadyUsed \<and>
   isSuccess (fst (join env0 ''tickA'' ''u@x.com'' st0)) \<and>
   fst (join env1 ''tickA'' ''v@x.com'' (snd (join env0 ''tickA'' ''u@x.com'' st0)))
     = KeyAlreadyUsed \<and>
   getAccessKey ''used1'' st0 = Some (mkKey ''used1'' False False None 1) \<and>
   fst (join env0 ''used1'' ''u@x.com'' st0) = KeyAlreadyUsed"
proof -
  have ok: "isSuccess (fst (join env0 ''tickA'' ''u@x.com'' st0))"
    by (simp add: join_tickA_u isSuccess_def)
  have flags: "\<not> k_isUnlimited (mkKey ''tickA'' False False None 0)"
    "\<not> k_isTemp (mkKey ''tickA'' False False None 0)"
    "k_usageCount (mkKey ''tickA'' False False None 0) = 0"
    by (simp_all add: mkKey_def)
  have flags1: "\<not> k_isUnlimited (mkKey ''used1'' False False None 1)"
    "\<not> k_isTemp (mkKey ''used1'' False False None 1)"
    "0 < k_usageCount (mkKey ''used1'' False False None 1)"
    by (simp_all add: mkKey_def)
  from key_already_used_iff [OF _ _ key_tickA, of "''u@x.com''" env0 "''v@x.com''" env1]
    ok flags
  have one: "fst (join env0 ''tickA'' ''u@x.com'' st0) \<noteq> KeyAlreadyUsed \<and>
     fst (join env1 ''tickA'' ''v@x.com'' (snd (join env0 ''tickA'' ''u@x.com'' st0)))
       = KeyAlreadyUsed"
    by simp
  from key_already_used_iff [OF _ _ key_used1, of "''u@x.com''" env0 "''v@x.com''" env1]
    flags1
  have two: "fst (join env0 ''used1'' ''u@x.com'' st0) = KeyAlreadyUsed"
    by simp
  from one two ok key_tickA key_used1 show ?thesis by blast
qed

theorem key_already_used_counterexample:
  "getAccessKey ''used1'' st0 = Some (mkKey ''used1'' False False None 1) \<and>
   \<not> k_isUnlimited (mkKey ''used1'' False False None 1) \<and>
   \<not> k_isTemp (mkKey ''used1'' False False None 1) \<and>
   0 < k_usageCount (mkKey ''used1'' False False None 1) \<and>
   fst (join env0 ''used1'' [] st0) = MissingFields \<and>
   fst (join env0 ''used1'' [] st0) \<noteq> KeyAlreadyUsed"
  by (simp add: key_used1 join_def mkKey_def)

theorem join_temp_expiry_witness:
  "isSuccess (fst (join env0 ''temp24'' ''u@x.com'' st0)) \<and>
   (\<exists>invitation.
      getInvitation ''id1'' (snd (join env0 ''temp24'' ''u@x.com'' st0)) = Some invitation \<and>
      i_isTemp invitation \<and> i_tempExpireAt invitation = Some (1000 + 24 * 3600000)) \<and>
   isSuccess (fst (join env0 ''tickA'' ''u@x.com'' st0)) \<and>
   (\<exists>invitation.
      getInvitation ''id1'' (snd (join env0 ''tickA'' ''u@x.com'' st0)) = Some invitation \<and>
      \<not> i_isTemp invitation \<and> i_tempExpireAt invitation = None)"
proof -
  have ok1: "isSuccess (fst (join env0 ''temp24'' ''u@x.com'' st0))"
    by (simp add: join_temp24_u isSuccess_def)
  have ok2: "isSuccess (fst (join env0 ''tickA'' ''u@x.com'' st0))"
    by (simp add: join_tickA_u isSuccess_def)
  have e: "uuid env0 = ''id1''" "now env0 = 1000"
    by (simp_all add: env0_def)
  from join_temp_expiry [OF ok1 key_temp24]
  have one: "\<exists>invitation.
      getInvitation ''id1'' (snd (join env0 ''temp24'' ''u@x.com'' st0)) = Some invitation \<and>
      i_isTemp invitation \<and> i_tempExpireAt invitation = Some (1000 + 24 * 3600000)"
    by (auto simp: e mkKey_def)
  from join_temp_expiry [OF ok2 key_tickA]
  have two: "\<exists>invitation.
      getInvitation ''id1'' (snd (join env0 ''tickA'' ''u@x.com'' st0)) = Some invitation \<and>
      \<not> i_isTemp invitation \<and> i_tempExpireAt invitation = None"
    by (auto simp: e mkKey_def)
  from ok1 one ok2 two show ?thesis by blast
qed

theorem join_temp_expiry_counterexample:
  "map_option k_isTemp (getAccessKey ''temp0'' st0) = Some True \<and>
   map_option k_tempHours (getAccessKey ''temp0'' st0) = Some (Some 0) \<and>
   isSuccess (fst (join env0 ''temp0'' ''u@x.com'' st0)) \<and>
   map_option i_tempExpireAt (getInvitation ''id1'' (snd (join env0 ''temp0'' ''u@x.com'' st0)))
     = Some (Some (now env0 + 24 * 3600000)) \<and>
   map_option i_tempExpireAt (getInvitation ''id1'' (snd (join env0 ''temp0'' ''u@x.com'' st0)))
     \<noteq> Some (Some (now env0 + 0 * 3600000))"
proof -
  have ok: "isSuccess (fst (join env0 ''temp0'' ''u@x.com'' st0))"
    by (simp add: join_temp0_u isSuccess_def)
  have inv: "map_option i_tempExpireAt
       (getInvitation ''id1'' (snd (join env0 ''temp0'' ''u@x.com'' st0)))
     = Some (Some (now env0 + 24 * 3600000))"
    by (simp add: handler_defs example_defs)
  from ok inv show ?thesis
    by (auto simp: key_temp0 mkKey_def)
qed


lemma key_tickA_full: "getAccessKey ''tickA'' stFull = Some (mkKey ''tickA'' False False None 0)"
  by (simp add: getAccessKey_def kv_get_def example_defs)

lemma key_tickA_st1: "getAccessKey ''tickA'' st1 = Some (mkKey ''tickA'' False False None 0)"
  by (simp add: getAccessKey_def kv_get_def example_defs)

lemma usable_tickA: "usable (mkKey ''tickA'' False False None 0)"
  by (simp add: usable_def mkKey_def)

theorem join_no_available_teams_witness:
  "teams stFull = [teamB] \<and>
   \<not> isMemberOf stFull (toLowerCase ''u@x.com'') teamB \<and> \<not> hasCapacity stFull teamB \<and>
   fst (join env0 ''tickA'' ''u@x.com'' stFull) = NoAvailableTeams \<and>
   invitations (snd (join env0 ''tickA'' ''u@x.com'' stFull)) = [] \<and>
   getAccessKey ''tickA'' (snd (join env0 ''tickA'' ''u@x.com'' stFull))
     = Some (mkKey ''tickA'' False False None 0) \<and>
   invitesSent (snd (join env0 ''tickA'' ''u@x.com'' stFull)) = []"
proof -
  have ts: "teams stFull = [teamB]"
    by (simp add: example_defs)
  have d: "distinct (map t_id (teams stFull))"
    by (simp add: ts)
  have noB: "\<not> isMemberOf stFull (toLowerCase ''u@x.com'') teamB"
    by (simp add: notion_defs nonOwnerMembers_def memberEmails_def
          toLowerCase_def toLowerCase_char_def example_defs)
  have fullB: "\<not> hasCapacity stFull teamB"
    by (simp add: notion_defs nonOwnerMembers_def example_defs)
  have none: "\<forall>t\<in>set (teams stFull).
      \<not> isMemberOf stFull (toLowerCase ''u@x.com'') t \<and> \<not> hasCapacity stFull t"
    using noB fullB by (simp add: ts)
  have before: "invitations stFull = []" "invitesSent stFull = []"
    by (simp_all add: invitesSent_def example_defs)
  from join_no_available_teams [OF _ _ key_tickA_full usable_tickA d none, where env = env0]
    ts noB fullB before
  show ?thesis by simp
qed

lemmas spec_defs = liveNonOwners_def underCapacity_def holdsSeat_def liveMembers_def

theorem listTeams_newest_first_witness:
  "listTeams st0 = [teamB, teamA] \<and> t_createdAt teamA < t_createdAt teamB \<and>
   length (liveNonOwners st0 teamB) = 5 \<and> \<not> underCapacity st0 teamB \<and>
   length (liveNonOwners st0 teamA) = 3 \<and> underCapacity st0 teamA \<and>
   sorted_wrt (\<lambda>a b. t_createdAt b \<le> t_createdAt a) (listTeams st0) \<and>
   r_calls (snd (join env0 ''tickA'' ''u@x.com'' st0)) =
     [ListMembers ''tokB'' ''accB'', ListMembers ''tokA'' ''accA'',
      InviteMember ''tokA'' ''accA'' ''u@x.com''] \<and>
   t_memberCount (the (getTeam ''tA'' (snd (join env0 ''tickA'' ''u@x.com'' st0)))) = 4"
proof -
  have cached: "t_memberCount (the (getTeam ''tA'' (snd (join env0 ''tickA'' ''u@x.com'' st0)))) = 4"
    by (simp add: handler_defs example_defs)
  have ts: "teams st0 = [teamA, teamB]"
    by (simp add: st0_def)
  have d: "distinct (map t_id (teams st0))"
    by (simp add: example_defs)
  have older: "t_createdAt teamA < t_createdAt teamB"
    by (simp add: example_defs)
  have nB: "length (liveNonOwners st0 teamB) = 5"
    by (simp add: spec_defs example_defs)
  have nA: "length (liveNonOwners st0 teamA) = 3"
    by (simp add: spec_defs example_defs)
  have fullB: "\<not> underCapacity st0 teamB"
    by (simp add: spec_defs example_defs)
  have capA: "underCapacity st0 teamA"
    by (simp add: spec_defs example_defs)
  have noA: "\<not> holdsSeat st0 (toLowerCase ''u@x.com'') teamA"
    by (simp add: spec_defs toLowerCase_def toLowerCase_char_def example_defs)
  have noB: "\<not> holdsSeat st0 (toLowerCase ''u@x.com'') teamB"
    by (simp add: spec_defs toLowerCase_def toLowerCase_char_def example_defs)
  have calls0: "r_calls st0 = []"
    by (simp add: example_defs)
  have lists: "map listCall (filter (\<lambda>t. t_tokenStatus t \<noteq> Expired) (listTeams st0)) =
      [ListMembers ''tokB'' ''accB'', ListMembers ''tokA'' ''accA'']"
    unfolding listTeams_st0 by (simp add: listCall_def teamA_def teamB_def mkTeam_def)
  have credA: "t_accessToken teamA = ''tokA''" "t_accountId teamA = ''accA''"
    by (simp_all add: teamA_def mkTeam_def)
  have hyps: "''u@x.com'' \<noteq> [] \<and> ''tickA'' \<noteq> [] \<and>
      getAccessKey ''tickA'' st0 = Some (mkKey ''tickA'' False False None 0) \<and>
      usable (mkKey ''tickA'' False False None 0) \<and> distinct (map t_id (teams st0)) \<and>
      (\<forall>t\<in>set (teams st0). \<not> holdsSeat st0 (toLowerCase ''u@x.com'') t) \<and>
      (\<exists>t\<in>set (teams st0). underCapacity st0 t)"
    using key_tickA usable_tickA d noA noB capA by (simp add: ts)
  from listTeams_newest_first [where s = st0 and email = "''u@x.com''"
      and key_code = "''tickA''" and key = "mkKey ''tickA'' False False None 0"
      and env = env0] hyps
  obtain c where c: "c \<in> set (teams st0)" "underCapacity st0 c"
    and calls: "r_calls (snd (join env0 ''tickA'' ''u@x.com'' st0)) =
           r_calls st0 @
           map listCall (filter (\<lambda>t. t_tokenStatus t \<noteq> Expired) (listTeams st0)) @
           [InviteMember (t_accessToken c) (t_accountId c) ''u@x.com'']"
    and sorted: "sorted_wrt (\<lambda>a b. t_createdAt b \<le> t_createdAt a) (listTeams st0)"
    by blast
  from c fullB have "c = teamA"
    by (auto simp: ts)
  with calls have "r_calls (snd (join env0 ''tickA'' ''u@x.com'' st0)) =
     [ListMembers ''tokB'' ''accB'', ListMembers ''tokA'' ''accA'',
      InviteMember ''tokA'' ''accA'' ''u@x.com'']"
    by (simp add: calls0 lists credA)
  with listTeams_st0 older nB fullB nA capA sorted cached show ?thesis
    by blast
qed

text \<open>The claim as it was stated fails where the newest team under capacity is marked
  expired: team C, newer than team A and with one live non-owner member, is passed over
  without a listing, and team A is invited.\<close>

theorem listTeams_newest_first_counterexample:
  "teams stSkip = [teamA, teamCx] \<and> t_createdAt teamA < t_createdAt teamCx \<and>
   t_tokenStatus teamCx = Expired \<and>
   liveMembers stSkip teamCx = Items rosterC \<and>
   map m_role rosterC = [Some ''standard-user''] \<and>
   length (liveNonOwners stSkip teamCx) = 1 \<and>
   length (liveNonOwners stSkip teamA) = 3 \<and>
   fst (join env0 ''tickA'' ''u@x.com'' stSkip) = InvitationSent \<and>
   r_calls (snd (join env0 ''tickA'' ''u@x.com'' stSkip)) =
     [ListMembers ''tokA'' ''accA'', InviteMember ''tokA'' ''accA'' ''u@x.com'']"
proof -
  have a: "teams stSkip = [teamA, teamCx] \<and> t_createdAt teamA < t_createdAt teamCx \<and>
     t_tokenStatus teamCx = Expired"
    by (simp add: stSkip_def teamCx_def example_defs)
  have b: "liveMembers stSkip teamCx = Items rosterC \<and>
     map m_role rosterC = [Some ''standard-user'']"
    by (simp add: liveMembers_def stSkip_def teamCx_def st0_def remote0_def mkTeam_def
          rosterC_def mkMember_def)
  have n: "length (liveNonOwners stSkip teamCx) = 1 \<and> length (liveNonOwners stSkip teamA) = 3"
    by (simp add: spec_defs stSkip_def teamCx_def example_defs)
  have r: "fst (join env0 ''tickA'' ''u@x.com'' stSkip) = InvitationSent"
    by (simp add: handler_defs stSkip_def teamCx_def example_defs)
  have c: "r_calls (snd (join env0 ''tickA'' ''u@x.com'' stSkip)) =
     [ListMembers ''tokA'' ''accA'', InviteMember ''tokA'' ''accA'' ''u@x.com'']"
    by (simp add: handler_defs stSkip_def teamCx_def example_defs)
  from a b n r c show ?thesis by simp
qed

text \<open>
  For a request that reaches the scan, on a team table with one record per id: when the
  lower-cased email is in the roster of a scanned team, the handler answers on the
  already-a-member path for the first such team, sends no invite, records the invitation
  for that team and increments the usage count.
\<close>

lemma join_already_member:
  assumes "email \<noteq> []" "key_code \<noteq> []" "getAccessKey key_code s = Some key" "usable key"
    and "distinct (map t_id (teams s))"
    and "find (isMemberOf s (toLowerCase email)) (listTeams s) = Some t"
  shows "fst (join env key_code email s) = AlreadyMember (t_name t) email \<and>
         invitesSent (snd (join env key_code email s)) = invitesSent s \<and>
         usedStore env key key_code email (t_id t) s (snd (join env key_code email s))"
proof -
  from join_cases [OF assms(1-5), of env] assms(6) obtain s1
    where s1: "sameButTeams s s1"
      and j: "join env key_code email s =
            (AlreadyMember (t_name t) email,
             incrementKeyUsage key_code (snd (createInvitation env
                (joinInvitation env key key_code email (t_id t)) s1)))"
    by auto
  have k1: "getAccessKey key_code s1 = Some key"
    using assms(3) s1 by (simp add: getAccessKey_def sameButTeams_def)
  have used: "usedStore env key key_code email (t_id t) s (snd (join env key_code email s))"
    unfolding j snd_conv
    by (rule usedStore_cong [OF sameButTeams_sameStore [OF s1] use_key [OF k1] sameStore_refl])
  have "invitesSent (snd (join env key_code email s)) = invitesSent s1"
    unfolding j by (simp add: invitesSent_def use_key_calls)
  with sameButTeams_sent [OF s1] j used show ?thesis by simp
qed

section \<open>Where the code leaves the claims\<close>

text \<open>
  C4. The handler lower-cases the email and does not trim it. For an email with a
  leading space whose trimmed, lower-cased form is in the roster of team A, the request
  with the normalised email takes the already-a-member path and sends no invite, while
  the request with the email as typed finds no member and sends an invite for the
  untrimmed address: the two requests do not behave alike.
\<close>

theorem join_untrimmed_email:
  "toLowerCase (trim '' a1@x.com'') = ''a1@x.com'' \<and>
   fst (join env0 ''tickA'' ''a1@x.com'' st0) = AlreadyMember ''Team A'' ''a1@x.com'' \<and>
   invitesSent (snd (join env0 ''tickA'' ''a1@x.com'' st0)) = [] \<and>
   fst (join env0 ''tickA'' '' a1@x.com'' st0) = InvitationSent \<and>
   invitesSent (snd (join env0 ''tickA'' '' a1@x.com'' st0))
     = [InviteMember ''tokA'' ''accA'' '' a1@x.com'']"
proof -
  have n: "toLowerCase (trim '' a1@x.com'') = ''a1@x.com''"
    by (simp add: toLowerCase_def toLowerCase_char_def trim_def isWhiteSpace_def)
  have r1: "fst (join env0 ''tickA'' ''a1@x.com'' st0) = AlreadyMember ''Team A'' ''a1@x.com''"
    by (simp add: handler_defs example_defs)
  have c1: "r_calls (snd (join env0 ''tickA'' ''a1@x.com'' st0))
      = [ListMembers ''tokB'' ''accB'', ListMembers ''tokA'' ''accA'']"
    by (simp add: handler_defs example_defs)
  have r2: "fst (join env0 ''tickA'' '' a1@x.com'' st0) = InvitationSent"
    by (simp add: handler_defs example_defs)
  have c2: "r_calls (snd (join env0 ''tickA'' '' a1@x.com'' st0))
      = [ListMembers ''tokB'' ''accB'', ListMembers ''tokA'' ''accA'',
         InviteMember ''tokA'' ''accA'' '' a1@x.com'']"
    by (simp add: handler_defs example_defs)
  from n r1 r2 show ?thesis
    by (simp add: invitesSent_def isInviteCall_def c1 c2)
qed

text \<open>
  C5. The trimmed, lower-cased email is in the live roster of team A, a scanned team, and
  the key is a temp key; the request with the email as typed (a trailing space) sends a
  remote invite, and so does its repetition: two invites where the already-a-member path
  would send none.
\<close>

theorem join_member_with_padded_email:
  "scanned st0 teamA \<and>
   toLowerCase (trim ''A1@X.com '') \<in> set (memberEmails (liveRoster st0 teamA)) \<and>
   fst (join env0 ''temp24'' ''A1@X.com '' st0) = InvitationSent \<and>
   invitesSent (snd (join env0 ''temp24'' ''A1@X.com '' st0))
     = [InviteMember ''tokA'' ''accA'' ''A1@X.com ''] \<and>
   fst (join env1 ''temp24'' ''A1@X.com '' (snd (join env0 ''temp24'' ''A1@X.com '' st0)))
     = InvitationSent \<and>
   invitesSent
     (snd (join env1 ''temp24'' ''A1@X.com '' (snd (join env0 ''temp24'' ''A1@X.com '' st0))))
     = [InviteMember ''tokA'' ''accA'' ''A1@X.com '',
        InviteMember ''tokA'' ''accA'' ''A1@X.com '']"
proof -
  have sc: "scanned st0 teamA"
    by (simp add: notion_defs example_defs)
  have mem: "toLowerCase (trim ''A1@X.com '') \<in> set (memberEmails (liveRoster st0 teamA))"
    by (simp add: notion_defs nonOwnerMembers_def memberEmails_def toLowerCase_def
          toLowerCase_char_def trim_def isWhiteSpace_def example_defs)
  have r1: "fst (join env0 ''temp24'' ''A1@X.com '' st0) = InvitationSent"
    by (simp add: handler_defs example_defs)
  have c1: "r_calls (snd (join env0 ''temp24'' ''A1@X.com '' st0))
      = [ListMembers ''tokB'' ''accB'', ListMembers ''tokA'' ''accA'',
         InviteMember ''tokA'' ''accA'' ''A1@X.com '']"
    by (simp add: handler_defs example_defs)
  have r2: "fst (join env1 ''temp24'' ''A1@X.com ''
                (snd (join env0 ''temp24'' ''A1@X.com '' st0))) = InvitationSent"
    by (simp add: handler_defs example_defs)
  have c2: "r_calls (snd (join env1 ''temp24'' ''A1@X.com ''
                (snd (join env0 ''temp24'' ''A1@X.com '' st0))))
      = [ListMembers ''tokB'' ''accB'', ListMembers ''tokA'' ''accA'',
         InviteMember ''tokA'' ''accA'' ''A1@X.com '',
         ListMembers ''tokB'' ''accB'', ListMembers ''tokA'' ''accA'',
         InviteMember ''tokA'' ''accA'' ''A1@X.com '']"
    by (simp add: handler_defs example_defs)
  from sc mem r1 r2 show ?thesis
    by (simp add: invitesSent_def isInviteCall_def c1 c2)
qed

section \<open>The reconciler\<close>

lemma expiryStep_frame:
  "sameButTeams s (expiryStep env invitation s) \<and>
   kick_logs (expiryStep env invitation s) = kick_logs s"
  by (auto simp: expiryStep_def fetchTeamMembers_def sameButTeams_def isListCall_def
        split: option.splits FetchResult.splits)

lemma expiryPass_frame:
  "sameButTeams s (expiryPass env invites s) \<and> kick_logs (expiryPass env invites s) = kick_logs s"
proof (induction invites arbitrary: s)
  case Nil
  show ?case by (simp add: sameButTeams_refl)
next
  case (Cons invitation rest)
  from expiryStep_frame [of s env invitation] Cons [of "expiryStep env invitation s"]
  show ?case by (auto intro: sameButTeams_trans)
qed

text \<open>No tick removes a member or writes a kick log.\<close>

lemma autoKickTick_frame:
  "removalsSent (autoKickTick env s) = removalsSent s \<and>
   kick_logs (autoKickTick env s) = kick_logs s"
  using expiryPass_frame [of s env "listInvitations s"]
    sameButTeams_sent [of s "expiryPass env (listInvitations s) s"]
  by (simp add: autoKickTick_def Let_def)

lemmas reconciler_defs =
  autoKickTick_def getAutoKickConfig_def listInvitations_def expiryStep_def expiryDue_def
  getTeam_def kv_get_def fetchTeamMembers_def Let_def

text \<open>
  C1. A tick with the reconciler enabled and the hour inside the window, on a
  store whose one invitation is temp, not confirmed, of status success and expired
  (\<open>tempExpireAt = 500\<close>, clock at 1000): the owning team exists and the member with the
  invitation's email is in its live roster. The tick requests the member listing and
  does nothing else: it sends no removal and writes no kick log.
\<close>

theorem autoKickTick_expired_not_removed:
  "enabled (getAutoKickConfig stExpired) \<and>
   startHour (getAutoKickConfig stExpired) \<le> currentHour env0 \<and>
   currentHour env0 \<le> endHour (getAutoKickConfig stExpired) \<and>
   listInvitations stExpired = [invExpired] \<and>
   i_isTemp invExpired \<and> \<not> i_isConfirmed invExpired \<and> i_status invExpired = Success \<and>
   i_tempExpireAt invExpired = Some 500 \<and> 500 < now env0 \<and>
   getTeam (i_teamId invExpired) stExpired = Some teamA \<and>
   liveMembers stExpired teamA = Items rosterA \<and>
   find (\<lambda>m. m_email m = Some (i_email invExpired)) rosterA
     = Some (mkMember ''u1'' ''a1@x.com'' ''standard-user'') \<and>
   r_calls (autoKickTick env0 stExpired) = [ListMembers ''tokA'' ''accA''] \<and>
   removalsSent (autoKickTick env0 stExpired) = [] \<and>
   kick_logs (autoKickTick env0 stExpired) = []"
proof -
  have cfg: "getAutoKickConfig stExpired = configOn"
    by (simp add: getAutoKickConfig_def example_defs)
  have li: "listInvitations stExpired = [invExpired]"
    by (simp add: listInvitations_def stExpired_def)
  have inv: "i_isTemp invExpired \<and> \<not> i_isConfirmed invExpired \<and> i_status invExpired = Success \<and>
     i_tempExpireAt invExpired = Some 500 \<and> 500 < now env0"
    by (simp add: invExpired_def env0_def)
  have team: "getTeam (i_teamId invExpired) stExpired = Some teamA"
    by (simp add: getTeam_def kv_get_def example_defs)
  have live: "liveMembers stExpired teamA = Items rosterA"
    by (simp add: liveMembers_def stExpired_def st0_def remote0_def teamA_def mkTeam_def)
  have mem: "find (\<lambda>m. m_email m = Some (i_email invExpired)) rosterA
     = Some (mkMember ''u1'' ''a1@x.com'' ''standard-user'')"
    by (simp add: invExpired_def rosterA_def mkMember_def)
  have calls: "r_calls (autoKickTick env0 stExpired) = [ListMembers ''tokA'' ''accA'']"
    by (simp add: reconciler_defs example_defs)
  have rem: "removalsSent (autoKickTick env0 stExpired) = []"
    by (simp add: removalsSent_def calls isRemoveCall_def)
  have logs: "kick_logs (autoKickTick env0 stExpired) = []"
    by (simp add: reconciler_defs example_defs)
  from cfg li inv team live mem calls rem logs show ?thesis
    by (simp add: configOn_def env0_def)
qed

text \<open>
  C2. A tick with the reconciler enabled and the hour inside the window, on a store
  with no invitation at all, while team A has
  three live non-owner members: the tick calls the remote service not at all, removes
  nobody and writes no kick log.
\<close>

theorem autoKickTick_unauthorized_not_removed:
  "enabled (getAutoKickConfig stUnauthorized) \<and>
   startHour (getAutoKickConfig stUnauthorized) \<le> currentHour env0 \<and>
   currentHour env0 \<le> endHour (getAutoKickConfig stUnauthorized) \<and>
   invitations stUnauthorized = [] \<and>
   teamA \<in> set (teams stUnauthorized) \<and>
   map m_email (liveRoster stUnauthorized teamA)
     = [Some ''a1@x.com'', Some ''a2@x.com'', Some ''a3@x.com''] \<and>
   r_calls (autoKickTick env0 stUnauthorized) = [] \<and>
   kick_logs (autoKickTick env0 stUnauthorized) = []"
proof -
  have cfg: "getAutoKickConfig stUnauthorized = configOn"
    by (simp add: getAutoKickConfig_def example_defs)
  have none: "invitations stUnauthorized = []"
    by (simp add: stUnauthorized_def st0_def)
  have inA: "teamA \<in> set (teams stUnauthorized)"
    by (simp add: stUnauthorized_def st0_def)
  have live: "map m_email (liveRoster stUnauthorized teamA)
     = [Some ''a1@x.com'', Some ''a2@x.com'', Some ''a3@x.com'']"
    by (simp add: liveRoster_def liveMembers_def nonOwnerMembers_def example_defs)
  have calls: "r_calls (autoKickTick env0 stUnauthorized) = []"
    by (simp add: reconciler_defs example_defs)
  have logs: "kick_logs (autoKickTick env0 stUnauthorized) = []"
    by (simp add: reconciler_defs example_defs)
  from cfg none inA live calls logs show ?thesis
    by (simp add: configOn_def env0_def)
qed

end
